theory Spec2Isabelle
  imports Complex_Main
begin

section \<open>The grid world of \<open>gridworld.py\<close>\<close>

text \<open>
  A shallow embedding of \<open>GridWorld.step\<close>, \<open>GridWorld.trans_function\<close> and
  \<open>GridWorld._reward_agent\<close>. Python integers are \<open>int\<close>, the reward values are
  \<open>real\<close> (they are only stored and copied, never computed with), exceptions are values
  of \<open>error\<close>, and the object \<open>self\<close> is a record that every method takes and returns.
\<close>

subsection \<open>Data\<close>

type_synonym cell = "int \<times> int"

text \<open>
  The exceptions. \<open>UnknownAction\<close> is the class that \<open>GridWorld\<close> declares, with the
  docstring ``Raised when an agent try to do an unknown action''.
\<close>

datatype error = AssertionError | IndexError | UnknownAction

text \<open>A two-dimensional numpy array: its shape and its entries.\<close>

record ndarray =
  shape :: "nat \<times> nat"
  item :: "nat \<Rightarrow> nat \<Rightarrow> int"

text \<open>
  \<open>a[n, m]\<close> of numpy: an index below zero counts from the end of its axis, an index
  outside \<open>[-len, len)\<close> raises IndexError.
\<close>

definition getitem2 :: "ndarray \<Rightarrow> cell \<Rightarrow> error + int" where
  "getitem2 a p =
     (let h = int (fst (shape a)); w = int (snd (shape a)); n = fst p; m = snd p
      in if - h \<le> n \<and> n < h \<and> - w \<le> m \<and> m < w
         then Inr (item a (nat (if n < 0 then n + h else n)) (nat (if m < 0 then m + w else m)))
         else Inl IndexError)"

text \<open>\<open>xs[i]\<close> on a one-dimensional array, with the same rule.\<close>

definition getitem :: "'a list \<Rightarrow> int \<Rightarrow> error + 'a" where
  "getitem xs i =
     (if 0 \<le> i \<and> i < int (length xs) then Inr (xs ! nat i)
      else if - int (length xs) \<le> i \<and> i < 0 then Inr (xs ! nat (i + int (length xs)))
      else Inl IndexError)"

text \<open>\<open>class GridworldAgent\<close>; the field \<open>done\<close> is \<open>is_done\<close> here.\<close>

record gridworld_agent =
  agent_id :: nat
  init_pos :: cell
  pos :: cell
  init_goal :: cell
  goal :: cell
  battery :: int
  is_done :: bool

definition BATTERY :: int where
  "BATTERY = 150"

text \<open>\<open>LegalActions\<close> and \<open>GridLegend\<close> are IntEnums: an action is an integer.\<close>

definition LegalActions_left :: int where "LegalActions_left = 0"
definition LegalActions_right :: int where "LegalActions_right = 1"
definition LegalActions_up :: int where "LegalActions_up = 2"
definition LegalActions_down :: int where "LegalActions_down = 3"

definition OBSTACLE :: int where "OBSTACLE = 1"
definition GCS :: int where "GCS = 2"

text \<open>The keys of the dictionary \<open>self.rewards\<close>.\<close>

datatype reward_key = Free | Obstacles | Goal | Out_of_bounds | Battery_depleted

text \<open>
  \<open>class GridWorld\<close>, the fields that \<open>step\<close> reads or writes. The random generator
  \<open>self.np_random\<close> is the sequence of values that its successive calls of \<open>choice\<close>
  return, together with the number \<open>drawn\<close> of values already taken from it.
\<close>

record gridworld =
  agents :: "gridworld_agent list"
  grid :: ndarray
  np_random :: "nat \<Rightarrow> int"
  drawn :: nat
  col_wind :: "int list"
  step_count :: int
  max_steps :: int
  rewards :: "reward_key \<Rightarrow> real"

text \<open>The values that \<open>__init__\<close> puts into \<open>self.rewards\<close>.\<close>

fun default_rewards :: "reward_key \<Rightarrow> real" where
  "default_rewards Free = - 0.04"
| "default_rewards Obstacles = - 0.75"
| "default_rewards Goal = 10.0"
| "default_rewards Out_of_bounds = - 0.8"
| "default_rewards Battery_depleted = - 10.0"

text \<open>\<open>self.np_random.choice(self.w_range, p=self.probabilities)\<close>: one draw.\<close>

definition choice :: "gridworld \<Rightarrow> int \<times> gridworld" where
  "choice s = (np_random s (drawn s), s\<lparr>drawn := Suc (drawn s)\<rparr>)"

subsection \<open>\<open>trans_function\<close>\<close>

definition trans_function :: "gridworld \<Rightarrow> cell \<Rightarrow> int \<Rightarrow> int \<Rightarrow> error + cell" where
  "trans_function s state action noise =
     (case state of (n, m) \<Rightarrow>
        (case getitem (col_wind s) n of
           Inl e \<Rightarrow> Inl e
         | Inr cw \<Rightarrow>
             (let wind = (if cw \<noteq> 0 then cw + noise else 0)
              in Inr (if action = LegalActions_up then (n - 1, m + wind)
                      else if action = LegalActions_down then (n + 1, m + wind)
                      else if action = LegalActions_left then (n, m - 1 + wind)
                      else if action = LegalActions_right then (n, m + 1 + wind)
                      else (n, m)))))"

subsection \<open>\<open>_reward_agent\<close>\<close>

text \<open>The list \<open>[self.agents[j].pos for j in range(len(self.agents)) if j != i]\<close>.\<close>

definition other_positions :: "gridworld \<Rightarrow> nat \<Rightarrow> cell list" where
  "other_positions s i =
     map (\<lambda>j. pos (agents s ! j)) (filter (\<lambda>j. j \<noteq> i) [0..<length (agents s)])"

definition in_bounds :: "gridworld \<Rightarrow> cell \<Rightarrow> bool" where
  "in_bounds s p =
     (0 \<le> fst p \<and> fst p < int (fst (shape (grid s))) \<and>
      0 \<le> snd p \<and> snd p < int (snd (shape (grid s))))"

text \<open>The result is the triple \<open>(reward, illegal, done)\<close>.\<close>

definition reward_agent :: "gridworld \<Rightarrow> nat \<Rightarrow> real \<times> bool \<times> bool" where
  "reward_agent s i =
     (let agent = agents s ! i;
          n = fst (pos agent); m = snd (pos agent);
          r = (if \<not> in_bounds s (n, m)
               then (rewards s Out_of_bounds, True, False)
               else if item (grid s) (nat n) (nat m) = OBSTACLE
                       \<or> (n, m) \<in> set (other_positions s i)
               then (rewards s Obstacles, True, False)
               else if (n, m) = goal agent
               then (rewards s Goal, False, True)
               else (rewards s Free, False, False))
      in if battery agent \<le> 0
         then (rewards s Battery_depleted, fst (snd r), True)
         else r)"

subsection \<open>\<open>step\<close>\<close>

text \<open>
  The first loop: one draw and one proposed move for each agent that is not done. An
  IndexError of \<open>self.col_wind[n]\<close> leaves the loop with the draws made so far.
\<close>

fun compute_moves ::
  "int list \<Rightarrow> nat list \<Rightarrow> cell list \<Rightarrow> gridworld \<Rightarrow> (error + cell list) \<times> gridworld" where
  "compute_moves actions [] moves s = (Inr moves, s)"
| "compute_moves actions (i # ids) moves s =
     (if is_done (agents s ! i) then compute_moves actions ids moves s
      else
        (case trans_function (snd (choice s)) (pos (agents s ! i)) (actions ! i)
                (fst (choice s)) of
           Inl e \<Rightarrow> (Inl e, snd (choice s))
         | Inr mv \<Rightarrow> compute_moves actions ids (moves[i := mv]) (snd (choice s))))"

text \<open>The second loop: the moves are applied, legal or not, and the battery pays.\<close>

definition apply_move :: "cell list \<Rightarrow> nat \<Rightarrow> gridworld \<Rightarrow> gridworld" where
  "apply_move moves i s =
     (if is_done (agents s ! i) then s
      else s\<lparr>agents := (agents s)
               [i := (agents s ! i)\<lparr>pos := moves ! i,
                                    battery := battery (agents s ! i) - 10\<rparr>]\<rparr>)"

definition apply_moves :: "cell list \<Rightarrow> gridworld \<Rightarrow> gridworld" where
  "apply_moves moves s = fold (apply_move moves) [0..<length (agents s)] s"

text \<open>
  The local lists \<open>rewards\<close>, \<open>illegals\<close> and \<open>done\<close> of \<open>step\<close>, next to the object.
\<close>

record resolution =
  self :: gridworld
  loc_rewards :: "real list"
  loc_illegals :: "bool list"
  loc_done :: "bool list"

text \<open>\<open>rewards[i], illegals[i], done[i] = self._reward_agent(i)\<close>\<close>

definition evaluate :: "nat \<Rightarrow> resolution \<Rightarrow> resolution" where
  "evaluate i st =
     (case reward_agent (self st) i of
        (r, ill, d) \<Rightarrow>
          st\<lparr>loc_rewards := (loc_rewards st)[i := r],
             loc_illegals := (loc_illegals st)[i := ill],
             loc_done := (loc_done st)[i := d]\<rparr>)"

definition first_evaluation :: "resolution \<Rightarrow> resolution" where
  "first_evaluation st =
     fold (\<lambda>i st. if is_done (agents (self st) ! i) then st else evaluate i st)
       [0..<length (agents (self st))] st"

text \<open>The body of the while loop: cancel the illegal moves, then evaluate again.\<close>

definition cancel_move :: "cell list \<Rightarrow> nat \<Rightarrow> resolution \<Rightarrow> resolution" where
  "cancel_move old_pos i st =
     (if loc_illegals st ! i
      then st\<lparr>self := (self st)\<lparr>agents := (agents (self st))
                          [i := (agents (self st) ! i)\<lparr>pos := old_pos ! i\<rparr>]\<rparr>,
              loc_illegals := (loc_illegals st)[i := False]\<rparr>
      else st)"

definition cancel_moves :: "cell list \<Rightarrow> resolution \<Rightarrow> resolution" where
  "cancel_moves old_pos st =
     fold (cancel_move old_pos) [0..<length (agents (self st))] st"

definition reevaluate :: "cell list \<Rightarrow> nat \<Rightarrow> resolution \<Rightarrow> resolution" where
  "reevaluate old_pos i st =
     (if is_done (agents (self st) ! i) \<or> pos (agents (self st) ! i) = old_pos ! i
      then st else evaluate i st)"

definition reevaluation :: "cell list \<Rightarrow> resolution \<Rightarrow> resolution" where
  "reevaluation old_pos st =
     fold (reevaluate old_pos) [0..<length (agents (self st))] st"

definition resolve_pass :: "cell list \<Rightarrow> resolution \<Rightarrow> resolution" where
  "resolve_pass old_pos st = reevaluation old_pos (cancel_moves old_pos st)"

text \<open>\<open>any(illegals)\<close>\<close>

definition any :: "bool list \<Rightarrow> bool" where
  "any bs = list_ex (\<lambda>b. b) bs"

text \<open>
  \<open>while any(illegals): ...\<close>. The source gives the loop no bound, so the model is a
  partial function: \<open>None\<close> is a loop that never ends.
\<close>

partial_function (option) solve_conflicts :: "cell list \<Rightarrow> resolution \<Rightarrow> resolution option" where
  "solve_conflicts old_pos st =
     (if any (loc_illegals st) then solve_conflicts old_pos (resolve_pass old_pos st)
      else Some st)"

declare solve_conflicts.simps [code]

text \<open>
  The last loop: an agent on the charging station is recharged, and every agent that was
  not done takes its flag from \<open>done[i]\<close>. The index \<open>self.grid[self.agents[i].pos]\<close>
  is numpy's, so it may raise. \<open>finish_agent dn i c\<close> is the body of the loop for
  agent \<open>i\<close> standing on a cell of value \<open>c\<close>.
\<close>

definition finish_agent :: "bool list \<Rightarrow> nat \<Rightarrow> int \<Rightarrow> gridworld \<Rightarrow> gridworld" where
  "finish_agent dn i c s =
     s\<lparr>agents := (agents s)
          [i := (agents s ! i)
             \<lparr>battery := (if c = GCS then BATTERY else battery (agents s ! i)),
              is_done := dn ! i\<rparr>]\<rparr>"

fun finish :: "bool list \<Rightarrow> nat list \<Rightarrow> gridworld \<Rightarrow> error option \<times> gridworld" where
  "finish dn [] s = (None, s)"
| "finish dn (i # ids) s =
     (if is_done (agents s ! i) then finish dn ids s
      else
        (case getitem2 (grid s) (pos (agents s ! i)) of
           Inl e \<Rightarrow> (Some e, s)
         | Inr c \<Rightarrow> finish dn ids (finish_agent dn i c s)))"

text \<open>
  \<open>step\<close> returns the pair of the outcome and the object as the call leaves it, also when
  it raises. The outcome of a call that returns is \<open>(rewards, done)\<close>; the observations,
  which \<open>gen_obs\<close> computes from the final state, and the empty \<open>info\<close> are left out.
\<close>

definition step ::
  "gridworld \<Rightarrow> int list \<Rightarrow> ((error + real list \<times> bool list) \<times> gridworld) option" where
  "step s0 actions =
     (let s1 = s0\<lparr>step_count := step_count s0 + 1\<rparr> in
      if length actions \<noteq> length (agents s1) then Some (Inl AssertionError, s1)
      else
        (case compute_moves actions [0..<length (agents s1)] (map pos (agents s1)) s1 of
           (Inl e, s2) \<Rightarrow> Some (Inl e, s2)
         | (Inr moves, s2) \<Rightarrow>
             (let old_pos = map pos (agents s2);
                  s3 = apply_moves moves s2;
                  st = first_evaluation
                         \<lparr>self = s3,
                          loc_rewards = replicate (length actions) 0,
                          loc_illegals = map (\<lambda>agent. False) (agents s3),
                          loc_done = map is_done (agents s3)\<rparr>
              in (case solve_conflicts old_pos st of
                    None \<Rightarrow> None
                  | Some st' \<Rightarrow>
                      (case finish (loc_done st') [0..<length (agents (self st'))] (self st') of
                         (Some e, s4) \<Rightarrow> Some (Inl e, s4)
                       | (None, s4) \<Rightarrow>
                           Some (Inr (loc_rewards st', map is_done (agents s4)), s4))))))"

text \<open>The end of \<open>reset\<close>: every agent goes back to its start, not done, battery full.\<close>

definition reset_agents :: "gridworld \<Rightarrow> gridworld" where
  "reset_agents s =
     s\<lparr>agents := map (\<lambda>agent. agent\<lparr>pos := init_pos agent, goal := init_goal agent,
                                     is_done := False, battery := BATTERY\<rparr>) (agents s)\<rparr>"

subsection \<open>Example states\<close>

text \<open>
  A five by five grid without obstacles, and an environment as \<open>__init__\<close> builds it:
  no wind, the noise always zero, the default rewards.
\<close>

definition mk_agent :: "nat \<Rightarrow> cell \<Rightarrow> cell \<Rightarrow> int \<Rightarrow> bool \<Rightarrow> gridworld_agent" where
  "mk_agent k p g b d =
     \<lparr>agent_id = k, init_pos = p, pos = p, init_goal = g, goal = g, battery = b, is_done = d\<rparr>"

definition free_grid :: ndarray where
  "free_grid = \<lparr>shape = (5, 5), item = (\<lambda>n m. 0)\<rparr>"

definition world :: "gridworld_agent list \<Rightarrow> ndarray \<Rightarrow> gridworld" where
  "world ags g =
     \<lparr>agents = ags, grid = g, np_random = (\<lambda>k. 0), drawn = 0, col_wind = [0, 0, 0, 0, 0],
      step_count = 0, max_steps = 100, rewards = default_rewards\<rparr>"

subsection \<open>Notions for the proofs\<close>

text \<open>
  The two evaluation loops of \<open>step\<close> differ only in the agents they skip;
  \<open>eval_if skip\<close> is their common body. A resolution state is \<open>consistent\<close> when its
  three local lists have one entry for each agent, as \<open>step\<close> builds them. An agent is
  \<open>skipped\<close> by the evaluation inside the while loop when it is done or stands on its old
  position, and it is \<open>eligible\<close> as long as it is flagged illegal or may still be
  evaluated by a later pass.
\<close>

definition eval_if :: "(gridworld \<Rightarrow> nat \<Rightarrow> bool) \<Rightarrow> nat \<Rightarrow> resolution \<Rightarrow> resolution" where
  "eval_if skip i st = (if skip (self st) i then st else evaluate i st)"

definition consistent :: "resolution \<Rightarrow> bool" where
  "consistent st \<longleftrightarrow>
     length (loc_rewards st) = length (agents (self st)) \<and>
     length (loc_illegals st) = length (agents (self st)) \<and>
     length (loc_done st) = length (agents (self st))"

definition eligible :: "cell list \<Rightarrow> resolution \<Rightarrow> nat list" where
  "eligible old_pos st =
     filter (\<lambda>i. loc_illegals st ! i \<or>
                 (\<not> is_done (agents (self st) ! i) \<and> pos (agents (self st) ! i) \<noteq> old_pos ! i))
       [0..<length (agents (self st))]"

definition skipped :: "cell list \<Rightarrow> gridworld \<Rightarrow> nat \<Rightarrow> bool" where
  "skipped old s i \<longleftrightarrow> is_done (agents s ! i) \<or> pos (agents s ! i) = old ! i"

definition moved_only :: "cell list \<Rightarrow> gridworld \<Rightarrow> gridworld \<Rightarrow> bool" where
  "moved_only old s3 s \<longleftrightarrow>
     length (agents s) = length (agents s3) \<and> grid s = grid s3 \<and> rewards s = rewards s3 \<and>
     drawn s = drawn s3 \<and> np_random s = np_random s3 \<and> col_wind s = col_wind s3 \<and>
     step_count s = step_count s3 \<and> max_steps s = max_steps s3 \<and>
     (\<forall>i<length (agents s3).
        agents s ! i = (agents s3 ! i)\<lparr>pos := pos (agents s ! i)\<rparr> \<and>
        (pos (agents s ! i) = pos (agents s3 ! i) \<or> pos (agents s ! i) = old ! i))"

definition evaluated :: "cell list \<Rightarrow> resolution \<Rightarrow> bool" where
  "evaluated old st \<longleftrightarrow>
     (\<forall>i<length (agents (self st)).
        \<not> skipped old (self st) i \<longrightarrow>
        loc_illegals st ! i = fst (snd (reward_agent (self st) i)))"

definition depleted :: "resolution \<Rightarrow> bool" where
  "depleted st \<longleftrightarrow>
     (\<forall>i<length (agents (self st)).
        \<not> is_done (agents (self st) ! i) \<longrightarrow> battery (agents (self st) ! i) \<le> 0 \<longrightarrow>
        loc_rewards st ! i = rewards (self st) Battery_depleted \<and> loc_done st ! i)"

definition entry :: "gridworld \<Rightarrow> nat \<Rightarrow> resolution" where
  "entry s3 k =
     first_evaluation
       \<lparr>self = s3, loc_rewards = replicate k 0,
        loc_illegals = map (\<lambda>agent. False) (agents s3),
        loc_done = map is_done (agents s3)\<rparr>"

definition set_budget :: "int \<Rightarrow> int \<Rightarrow> gridworld \<Rightarrow> gridworld" where
  "set_budget c m s = s\<lparr>step_count := c, max_steps := m\<rparr>"

definition set_budget_res :: "int \<Rightarrow> int \<Rightarrow> resolution \<Rightarrow> resolution" where
  "set_budget_res c m st = st\<lparr>self := set_budget c m (self st)\<rparr>"

definition collision :: resolution where
  "collision =
     \<lparr>self = world [mk_agent 0 (0, 1) (4, 4) 140 False, mk_agent 1 (0, 1) (4, 4) 140 False]
               free_grid,
      loc_rewards = [- 0.75, - 0.75], loc_illegals = [True, True], loc_done = [False, False]\<rparr>"

definition battery_ok :: "gridworld_agent \<Rightarrow> bool" where
  "battery_ok a \<longleftrightarrow>
     0 \<le> battery a \<and> battery a \<le> BATTERY \<and> 10 dvd battery a \<and>
     (\<not> is_done a \<longrightarrow> 0 < battery a)"

inductive reachable :: "gridworld \<Rightarrow> bool" where
  after_reset: "reachable (reset_agents s)"
| after_step: "reachable s \<Longrightarrow> step s acts = Some (Inr out, s') \<Longrightarrow> reachable s'"

definition station_grid :: ndarray where
  "station_grid = \<lparr>shape = (5, 5), item = (\<lambda>n m. if n = 0 \<and> m = 1 then GCS else 0)\<rparr>"

section \<open>The loops of \<open>step\<close>, one by one\<close>

lemma evaluate_self [simp]: "self (evaluate i st) = self st"
  by (simp add: evaluate_def split: prod.splits)

lemma evaluate_lengths [simp]:
  "length (loc_illegals (evaluate i st)) = length (loc_illegals st)"
  "length (loc_rewards (evaluate i st)) = length (loc_rewards st)"
  "length (loc_done (evaluate i st)) = length (loc_done st)"
  by (simp_all add: evaluate_def split: prod.splits)

lemma evaluate_nth:
  "loc_illegals (evaluate i st) = (loc_illegals st)[i := fst (snd (reward_agent (self st) i))]"
  "loc_rewards (evaluate i st) = (loc_rewards st)[i := fst (reward_agent (self st) i)]"
  "loc_done (evaluate i st) = (loc_done st)[i := snd (snd (reward_agent (self st) i))]"
  by (simp_all add: evaluate_def split: prod.splits)

lemma eval_if_self [simp]: "self (eval_if skip i st) = self st"
  by (simp add: eval_if_def)

lemma eval_if_nth:
  "i < length (loc_illegals st) \<Longrightarrow>
   loc_illegals (eval_if skip x st) ! i =
     (if i = x \<and> \<not> skip (self st) i then fst (snd (reward_agent (self st) i))
      else loc_illegals st ! i)"
  "i < length (loc_rewards st) \<Longrightarrow>
   loc_rewards (eval_if skip x st) ! i =
     (if i = x \<and> \<not> skip (self st) i then fst (reward_agent (self st) i)
      else loc_rewards st ! i)"
  "i < length (loc_done st) \<Longrightarrow>
   loc_done (eval_if skip x st) ! i =
     (if i = x \<and> \<not> skip (self st) i then snd (snd (reward_agent (self st) i))
      else loc_done st ! i)"
  by (auto simp: eval_if_def evaluate_nth nth_list_update)

lemma eval_if_lengths [simp]:
  "length (loc_illegals (eval_if skip i st)) = length (loc_illegals st)"
  "length (loc_rewards (eval_if skip i st)) = length (loc_rewards st)"
  "length (loc_done (eval_if skip i st)) = length (loc_done st)"
  by (simp_all add: eval_if_def)

lemma fold_eval_if_self [simp]: "self (fold (eval_if skip) xs st) = self st"
  by (induction xs arbitrary: st) simp_all

lemma fold_eval_if_lengths [simp]:
  "length (loc_illegals (fold (eval_if skip) xs st)) = length (loc_illegals st)"
  "length (loc_rewards (fold (eval_if skip) xs st)) = length (loc_rewards st)"
  "length (loc_done (fold (eval_if skip) xs st)) = length (loc_done st)"
  by (induction xs arbitrary: st) simp_all

lemma fold_eval_if_illegals:
  "i < length (loc_illegals st) \<Longrightarrow>
   loc_illegals (fold (eval_if skip) xs st) ! i =
     (if i \<in> set xs \<and> \<not> skip (self st) i then fst (snd (reward_agent (self st) i))
      else loc_illegals st ! i)"
proof (induction xs arbitrary: st)
  case Nil
  then show ?case by simp
next
  case (Cons x xs)
  have "i < length (loc_illegals (eval_if skip x st))"
    using Cons.prems by simp
  from Cons.IH [OF this] show ?case
    using Cons.prems by (auto simp: eval_if_nth)
qed

lemma fold_eval_if_rewards:
  "i < length (loc_rewards st) \<Longrightarrow>
   loc_rewards (fold (eval_if skip) xs st) ! i =
     (if i \<in> set xs \<and> \<not> skip (self st) i then fst (reward_agent (self st) i)
      else loc_rewards st ! i)"
proof (induction xs arbitrary: st)
  case Nil
  then show ?case by simp
next
  case (Cons x xs)
  have "i < length (loc_rewards (eval_if skip x st))"
    using Cons.prems by simp
  from Cons.IH [OF this] show ?case
    using Cons.prems by (auto simp: eval_if_nth)
qed

lemma fold_eval_if_done:
  "i < length (loc_done st) \<Longrightarrow>
   loc_done (fold (eval_if skip) xs st) ! i =
     (if i \<in> set xs \<and> \<not> skip (self st) i then snd (snd (reward_agent (self st) i))
      else loc_done st ! i)"
proof (induction xs arbitrary: st)
  case Nil
  then show ?case by simp
next
  case (Cons x xs)
  have "i < length (loc_done (eval_if skip x st))"
    using Cons.prems by simp
  from Cons.IH [OF this] show ?case
    using Cons.prems by (auto simp: eval_if_nth)
qed

lemma first_evaluation_eq:
  "first_evaluation st =
     fold (eval_if (\<lambda>s i. is_done (agents s ! i))) [0..<length (agents (self st))] st"
  unfolding first_evaluation_def eval_if_def ..

lemma reevaluation_eq:
  "reevaluation old_pos st =
     fold (eval_if (\<lambda>s i. is_done (agents s ! i) \<or> pos (agents s ! i) = old_pos ! i))
       [0..<length (agents (self st))] st"
  unfolding reevaluation_def reevaluate_def eval_if_def ..

lemma cancel_move_frame [simp]:
  "length (agents (self (cancel_move old x st))) = length (agents (self st))"
  "length (loc_illegals (cancel_move old x st)) = length (loc_illegals st)"
  "loc_rewards (cancel_move old x st) = loc_rewards st"
  "loc_done (cancel_move old x st) = loc_done st"
  "grid (self (cancel_move old x st)) = grid (self st)"
  "rewards (self (cancel_move old x st)) = rewards (self st)"
  "drawn (self (cancel_move old x st)) = drawn (self st)"
  "np_random (self (cancel_move old x st)) = np_random (self st)"
  "col_wind (self (cancel_move old x st)) = col_wind (self st)"
  "step_count (self (cancel_move old x st)) = step_count (self st)"
  "max_steps (self (cancel_move old x st)) = max_steps (self st)"
  by (simp_all add: cancel_move_def)

lemma cancel_move_nth:
  "i < length (agents (self st)) \<Longrightarrow>
   agents (self (cancel_move old x st)) ! i =
     (if i = x \<and> loc_illegals st ! i then (agents (self st) ! i)\<lparr>pos := old ! i\<rparr>
      else agents (self st) ! i)"
  "i < length (loc_illegals st) \<Longrightarrow>
   loc_illegals (cancel_move old x st) ! i = (if i = x then False else loc_illegals st ! i)"
  by (auto simp: cancel_move_def nth_list_update)

lemma fold_cancel_frame [simp]:
  "length (agents (self (fold (cancel_move old) xs st))) = length (agents (self st))"
  "length (loc_illegals (fold (cancel_move old) xs st)) = length (loc_illegals st)"
  "loc_rewards (fold (cancel_move old) xs st) = loc_rewards st"
  "loc_done (fold (cancel_move old) xs st) = loc_done st"
  "grid (self (fold (cancel_move old) xs st)) = grid (self st)"
  "rewards (self (fold (cancel_move old) xs st)) = rewards (self st)"
  "drawn (self (fold (cancel_move old) xs st)) = drawn (self st)"
  "np_random (self (fold (cancel_move old) xs st)) = np_random (self st)"
  "col_wind (self (fold (cancel_move old) xs st)) = col_wind (self st)"
  "step_count (self (fold (cancel_move old) xs st)) = step_count (self st)"
  "max_steps (self (fold (cancel_move old) xs st)) = max_steps (self st)"
  by (induction xs arbitrary: st) simp_all

lemma fold_cancel_illegals:
  "i < length (loc_illegals st) \<Longrightarrow>
   loc_illegals (fold (cancel_move old) xs st) ! i =
     (if i \<in> set xs then False else loc_illegals st ! i)"
proof (induction xs arbitrary: st)
  case Nil
  then show ?case by simp
next
  case (Cons x xs)
  have "i < length (loc_illegals (cancel_move old x st))"
    using Cons.prems by simp
  from Cons.IH [OF this] show ?case
    using Cons.prems by (auto simp: cancel_move_nth)
qed

lemma fold_cancel_agents:
  "i < length (agents (self st)) \<Longrightarrow> i < length (loc_illegals st) \<Longrightarrow> distinct xs \<Longrightarrow>
   agents (self (fold (cancel_move old) xs st)) ! i =
     (if i \<in> set xs \<and> loc_illegals st ! i then (agents (self st) ! i)\<lparr>pos := old ! i\<rparr>
      else agents (self st) ! i)"
proof (induction xs arbitrary: st)
  case Nil
  then show ?case by simp
next
  case (Cons x xs)
  have "i < length (agents (self (cancel_move old x st)))"
    and "i < length (loc_illegals (cancel_move old x st))" and "distinct xs"
    using Cons.prems by simp_all
  from Cons.IH [OF this] show ?case
    using Cons.prems by (auto simp: cancel_move_nth)
qed

lemma choice_simps [simp]:
  "fst (choice s) = np_random s (drawn s)"
  "snd (choice s) = s\<lparr>drawn := Suc (drawn s)\<rparr>"
  by (simp_all add: choice_def)

lemma compute_moves_state:
  "snd (compute_moves acts ids mv s) = s\<lparr>drawn := drawn (snd (compute_moves acts ids mv s))\<rparr>"
proof (induction ids arbitrary: mv s)
  case Nil
  show ?case by simp
next
  case (Cons i ids)
  show ?case
  proof (cases "is_done (agents s ! i)")
    case True
    then show ?thesis using Cons.IH [of mv s] by simp
  next
    case False
    let ?s = "s\<lparr>drawn := Suc (drawn s)\<rparr>"
    show ?thesis
    proof (cases "trans_function ?s (pos (agents s ! i)) (acts ! i) (np_random s (drawn s))")
      case (Inl e)
      then show ?thesis using False by simp
    next
      case (Inr c)
      have "snd (compute_moves acts ids (mv[i := c]) ?s) =
            ?s\<lparr>drawn := drawn (snd (compute_moves acts ids (mv[i := c]) ?s))\<rparr>"
        by (rule Cons.IH)
      then show ?thesis using False Inr by simp
    qed
  qed
qed

lemma compute_moves_frame:
  "agents (snd (compute_moves acts ids mv s)) = agents s"
  "grid (snd (compute_moves acts ids mv s)) = grid s"
  "np_random (snd (compute_moves acts ids mv s)) = np_random s"
  "col_wind (snd (compute_moves acts ids mv s)) = col_wind s"
  "step_count (snd (compute_moves acts ids mv s)) = step_count s"
  "max_steps (snd (compute_moves acts ids mv s)) = max_steps s"
  "rewards (snd (compute_moves acts ids mv s)) = rewards s"
  by (subst compute_moves_state, simp)+

lemma compute_moves_drawn:
  "fst (compute_moves acts ids mv s) = Inr mv' \<Longrightarrow>
   drawn (snd (compute_moves acts ids mv s)) =
     drawn s + length (filter (\<lambda>i. \<not> is_done (agents s ! i)) ids)"
proof (induction ids arbitrary: mv s)
  case Nil
  show ?case by simp
next
  case (Cons i ids)
  show ?case
  proof (cases "is_done (agents s ! i)")
    case True
    then show ?thesis using Cons by simp
  next
    case False
    let ?s = "s\<lparr>drawn := Suc (drawn s)\<rparr>"
    show ?thesis
    proof (cases "trans_function ?s (pos (agents s ! i)) (acts ! i) (np_random s (drawn s))")
      case (Inl e)
      then show ?thesis using False Cons.prems by simp
    next
      case (Inr c)
      have "fst (compute_moves acts ids (mv[i := c]) ?s) = Inr mv'"
        using Cons.prems False Inr by simp
      from Cons.IH [OF this] show ?thesis using False Inr by simp
    qed
  qed
qed

lemma compute_moves_length:
  "fst (compute_moves acts ids mv s) = Inr mv' \<Longrightarrow> length mv' = length mv"
proof (induction ids arbitrary: mv s)
  case Nil
  then show ?case by simp
next
  case (Cons i ids)
  show ?case
  proof (cases "is_done (agents s ! i)")
    case True
    then show ?thesis using Cons by simp
  next
    case False
    let ?s = "s\<lparr>drawn := Suc (drawn s)\<rparr>"
    show ?thesis
    proof (cases "trans_function ?s (pos (agents s ! i)) (acts ! i) (np_random s (drawn s))")
      case (Inl e)
      then show ?thesis using False Cons.prems by simp
    next
      case (Inr c)
      have "fst (compute_moves acts ids (mv[i := c]) ?s) = Inr mv'"
        using Cons.prems False Inr by simp
      from Cons.IH [OF this] show ?thesis by simp
    qed
  qed
qed

lemma apply_move_frame [simp]:
  "length (agents (apply_move mv x s)) = length (agents s)"
  "grid (apply_move mv x s) = grid s"
  "np_random (apply_move mv x s) = np_random s"
  "drawn (apply_move mv x s) = drawn s"
  "col_wind (apply_move mv x s) = col_wind s"
  "step_count (apply_move mv x s) = step_count s"
  "max_steps (apply_move mv x s) = max_steps s"
  "rewards (apply_move mv x s) = rewards s"
  by (simp_all add: apply_move_def)

lemma apply_move_nth:
  "i < length (agents s) \<Longrightarrow>
   agents (apply_move mv x s) ! i =
     (if i = x \<and> \<not> is_done (agents s ! i)
      then (agents s ! i)\<lparr>pos := mv ! i, battery := battery (agents s ! i) - 10\<rparr>
      else agents s ! i)"
  by (auto simp: apply_move_def nth_list_update)

lemma fold_apply_move_frame [simp]:
  "length (agents (fold (apply_move mv) xs s)) = length (agents s)"
  "grid (fold (apply_move mv) xs s) = grid s"
  "np_random (fold (apply_move mv) xs s) = np_random s"
  "drawn (fold (apply_move mv) xs s) = drawn s"
  "col_wind (fold (apply_move mv) xs s) = col_wind s"
  "step_count (fold (apply_move mv) xs s) = step_count s"
  "max_steps (fold (apply_move mv) xs s) = max_steps s"
  "rewards (fold (apply_move mv) xs s) = rewards s"
  by (induction xs arbitrary: s) simp_all

lemma fold_apply_move_nth:
  "i < length (agents s) \<Longrightarrow> distinct xs \<Longrightarrow>
   agents (fold (apply_move mv) xs s) ! i =
     (if i \<in> set xs \<and> \<not> is_done (agents s ! i)
      then (agents s ! i)\<lparr>pos := mv ! i, battery := battery (agents s ! i) - 10\<rparr>
      else agents s ! i)"
proof (induction xs arbitrary: s)
  case Nil
  then show ?case by simp
next
  case (Cons x xs)
  have "i < length (agents (apply_move mv x s))" and "distinct xs"
    using Cons.prems by simp_all
  from Cons.IH [OF this] show ?case
    using Cons.prems by (auto simp: apply_move_nth)
qed

lemma apply_moves_frame [simp]:
  "length (agents (apply_moves mv s)) = length (agents s)"
  "grid (apply_moves mv s) = grid s"
  "np_random (apply_moves mv s) = np_random s"
  "drawn (apply_moves mv s) = drawn s"
  "col_wind (apply_moves mv s) = col_wind s"
  "step_count (apply_moves mv s) = step_count s"
  "max_steps (apply_moves mv s) = max_steps s"
  "rewards (apply_moves mv s) = rewards s"
  by (simp_all add: apply_moves_def)

lemma apply_moves_nth:
  "i < length (agents s) \<Longrightarrow>
   agents (apply_moves mv s) ! i =
     (if is_done (agents s ! i) then agents s ! i
      else (agents s ! i)\<lparr>pos := mv ! i, battery := battery (agents s ! i) - 10\<rparr>)"
  by (simp add: apply_moves_def fold_apply_move_nth)

lemma finish_agent_frame [simp]:
  "length (agents (finish_agent dn x c s)) = length (agents s)"
  "grid (finish_agent dn x c s) = grid s"
  "np_random (finish_agent dn x c s) = np_random s"
  "drawn (finish_agent dn x c s) = drawn s"
  "col_wind (finish_agent dn x c s) = col_wind s"
  "step_count (finish_agent dn x c s) = step_count s"
  "max_steps (finish_agent dn x c s) = max_steps s"
  "rewards (finish_agent dn x c s) = rewards s"
  by (simp_all add: finish_agent_def)

lemma finish_agent_nth:
  "i < length (agents s) \<Longrightarrow>
   agents (finish_agent dn x c s) ! i =
     (if i = x
      then (agents s ! i)\<lparr>battery := (if c = GCS then BATTERY else battery (agents s ! i)),
                          is_done := dn ! i\<rparr>
      else agents s ! i)"
  by (auto simp: finish_agent_def nth_list_update)

lemma finish_frame [simp]:
  "length (agents (snd (finish dn ids s))) = length (agents s)"
  "grid (snd (finish dn ids s)) = grid s"
  "np_random (snd (finish dn ids s)) = np_random s"
  "drawn (snd (finish dn ids s)) = drawn s"
  "col_wind (snd (finish dn ids s)) = col_wind s"
  "step_count (snd (finish dn ids s)) = step_count s"
  "max_steps (snd (finish dn ids s)) = max_steps s"
  "rewards (snd (finish dn ids s)) = rewards s"
  by (induction ids arbitrary: s; simp only: finish.simps;
      simp split: sum.splits)+

lemma finish_pos:
  "i < length (agents s) \<Longrightarrow>
   pos (agents (snd (finish dn ids s)) ! i) = pos (agents s ! i)"
proof (induction ids arbitrary: s)
  case Nil
  show ?case by simp
next
  case (Cons x ids)
  show ?case
    using Cons.prems Cons.IH [of s] Cons.IH [of "finish_agent dn x c s" for c]
    by (simp only: finish.simps) (auto split: sum.splits simp: finish_agent_nth)
qed

lemma finish_done:
  "i < length (agents s) \<Longrightarrow> is_done (agents s ! i) \<Longrightarrow>
   agents (snd (finish dn ids s)) ! i = agents s ! i"
proof (induction ids arbitrary: s)
  case Nil
  show ?case by simp
next
  case (Cons x ids)
  show ?case
  proof (cases "is_done (agents s ! x)")
    case True
    then show ?thesis using Cons by (simp only: finish.simps) simp
  next
    case False
    then have neq: "i \<noteq> x" using Cons.prems by auto
    show ?thesis
    proof (cases "getitem2 (grid s) (pos (agents s ! x))")
      case (Inl e)
      then show ?thesis using False by (simp only: finish.simps) simp
    next
      case (Inr c)
      have "agents (snd (finish dn ids (finish_agent dn x c s))) ! i =
            agents (finish_agent dn x c s) ! i"
        using Cons.prems neq by (intro Cons.IH) (simp_all add: finish_agent_nth)
      then show ?thesis
        using False Inr neq Cons.prems
        by (simp only: finish.simps) (simp add: finish_agent_nth)
    qed
  qed
qed

lemma finish_nth:
  "i < length (agents s) \<Longrightarrow> distinct ids \<Longrightarrow> fst (finish dn ids s) = None \<Longrightarrow>
   agents (snd (finish dn ids s)) ! i =
     (if i \<in> set ids \<and> \<not> is_done (agents s ! i)
      then (agents s ! i)
             \<lparr>battery := (if getitem2 (grid s) (pos (agents s ! i)) = Inr GCS then BATTERY
                          else battery (agents s ! i)),
              is_done := dn ! i\<rparr>
      else agents s ! i)"
proof (induction ids arbitrary: s)
  case Nil
  show ?case by simp
next
  case (Cons x ids)
  show ?case
  proof (cases "is_done (agents s ! x)")
    case True
    have "fst (finish dn ids s) = None" using Cons.prems True by (simp only: finish.simps) simp
    then show ?thesis using Cons.IH [of s] Cons.prems True
      by (simp only: finish.simps) auto
  next
    case False
    show ?thesis
    proof (cases "getitem2 (grid s) (pos (agents s ! x))")
      case (Inl e)
      then show ?thesis using False Cons.prems by (simp only: finish.simps) simp
    next
      case (Inr c)
      let ?s = "finish_agent dn x c s"
      have ok: "fst (finish dn ids ?s) = None"
        using Cons.prems False Inr by (simp only: finish.simps) simp
      have eq: "finish dn (x # ids) s = finish dn ids ?s"
        using False Inr by (simp only: finish.simps) simp
      have "agents (snd (finish dn ids ?s)) ! i =
        (if i \<in> set ids \<and> \<not> is_done (agents ?s ! i)
         then (agents ?s ! i)
             \<lparr>battery := (if getitem2 (grid ?s) (pos (agents ?s ! i)) = Inr GCS then BATTERY
                          else battery (agents ?s ! i)),
              is_done := dn ! i\<rparr>
         else agents ?s ! i)"
        using Cons.prems ok by (intro Cons.IH) simp_all
      then show ?thesis
        unfolding eq using Cons.prems False Inr
        by (auto simp: finish_agent_nth)
    qed
  qed
qed

lemma cancel_moves_frame [simp]:
  "length (agents (self (cancel_moves old st))) = length (agents (self st))"
  "length (loc_illegals (cancel_moves old st)) = length (loc_illegals st)"
  "loc_rewards (cancel_moves old st) = loc_rewards st"
  "loc_done (cancel_moves old st) = loc_done st"
  "grid (self (cancel_moves old st)) = grid (self st)"
  "rewards (self (cancel_moves old st)) = rewards (self st)"
  "drawn (self (cancel_moves old st)) = drawn (self st)"
  "np_random (self (cancel_moves old st)) = np_random (self st)"
  "col_wind (self (cancel_moves old st)) = col_wind (self st)"
  "step_count (self (cancel_moves old st)) = step_count (self st)"
  "max_steps (self (cancel_moves old st)) = max_steps (self st)"
  by (simp_all add: cancel_moves_def)

lemma cancel_moves_nth:
  assumes "i < length (agents (self st))" and "length (loc_illegals st) = length (agents (self st))"
  shows "agents (self (cancel_moves old st)) ! i =
           (if loc_illegals st ! i then (agents (self st) ! i)\<lparr>pos := old ! i\<rparr>
            else agents (self st) ! i)"
    and "loc_illegals (cancel_moves old st) ! i = False"
  using assms by (simp_all add: cancel_moves_def fold_cancel_agents fold_cancel_illegals)

lemma resolve_pass_frame [simp]:
  "length (agents (self (resolve_pass old st))) = length (agents (self st))"
  "length (loc_illegals (resolve_pass old st)) = length (loc_illegals st)"
  "length (loc_rewards (resolve_pass old st)) = length (loc_rewards st)"
  "length (loc_done (resolve_pass old st)) = length (loc_done st)"
  "grid (self (resolve_pass old st)) = grid (self st)"
  "rewards (self (resolve_pass old st)) = rewards (self st)"
  "drawn (self (resolve_pass old st)) = drawn (self st)"
  "np_random (self (resolve_pass old st)) = np_random (self st)"
  "col_wind (self (resolve_pass old st)) = col_wind (self st)"
  "step_count (self (resolve_pass old st)) = step_count (self st)"
  "max_steps (self (resolve_pass old st)) = max_steps (self st)"
  by (simp_all add: resolve_pass_def reevaluation_eq)

lemma resolve_pass_consistent: "consistent st \<Longrightarrow> consistent (resolve_pass old st)"
  by (simp add: consistent_def)

lemma resolve_pass_agents:
  assumes "i < length (agents (self st))" and "length (loc_illegals st) = length (agents (self st))"
  shows "agents (self (resolve_pass old st)) ! i =
           (if loc_illegals st ! i then (agents (self st) ! i)\<lparr>pos := old ! i\<rparr>
            else agents (self st) ! i)"
  using assms by (simp add: resolve_pass_def reevaluation_eq cancel_moves_nth)

lemma resolve_pass_illegals:
  assumes "i < length (agents (self st))" and "length (loc_illegals st) = length (agents (self st))"
  shows "loc_illegals (resolve_pass old st) ! i =
           (if skipped old (self (resolve_pass old st)) i then False
            else fst (snd (reward_agent (self (resolve_pass old st)) i)))"
proof -
  have "self (resolve_pass old st) = self (cancel_moves old st)"
    by (simp add: resolve_pass_def reevaluation_eq)
  then show ?thesis
    using assms
    by (simp add: resolve_pass_def reevaluation_eq fold_eval_if_illegals cancel_moves_nth
        skipped_def)
qed

lemma resolve_pass_rewards:
  assumes "i < length (agents (self st))" and "length (loc_rewards st) = length (agents (self st))"
  shows "loc_rewards (resolve_pass old st) ! i =
           (if skipped old (self (resolve_pass old st)) i then loc_rewards st ! i
            else fst (reward_agent (self (resolve_pass old st)) i))"
proof -
  have "self (resolve_pass old st) = self (cancel_moves old st)"
    by (simp add: resolve_pass_def reevaluation_eq)
  then show ?thesis
    using assms
    by (simp add: resolve_pass_def reevaluation_eq fold_eval_if_rewards skipped_def)
qed

lemma resolve_pass_done:
  assumes "i < length (agents (self st))" and "length (loc_done st) = length (agents (self st))"
  shows "loc_done (resolve_pass old st) ! i =
           (if skipped old (self (resolve_pass old st)) i then loc_done st ! i
            else snd (snd (reward_agent (self (resolve_pass old st)) i)))"
proof -
  have "self (resolve_pass old st) = self (cancel_moves old st)"
    by (simp add: resolve_pass_def reevaluation_eq)
  then show ?thesis
    using assms
    by (simp add: resolve_pass_def reevaluation_eq fold_eval_if_done skipped_def)
qed

lemma any_iff: "any bs \<longleftrightarrow> (\<exists>i<length bs. bs ! i)"
  by (simp add: any_def list_ex_length)

lemma length_eligible:
  "length (eligible old st) =
     card {i. i < length (agents (self st)) \<and>
              (loc_illegals st ! i \<or>
               (\<not> is_done (agents (self st) ! i) \<and> pos (agents (self st) ! i) \<noteq> old ! i))}"
proof -
  have "distinct (eligible old st)" by (simp add: eligible_def)
  then have "length (eligible old st) = card (set (eligible old st))"
    by (simp add: distinct_card)
  also have "set (eligible old st) = {i. i < length (agents (self st)) \<and>
              (loc_illegals st ! i \<or>
               (\<not> is_done (agents (self st) ! i) \<and> pos (agents (self st) ! i) \<noteq> old ! i))}"
    by (auto simp: eligible_def)
  finally show ?thesis .
qed

lemma eligible_le: "length (eligible old st) \<le> length (agents (self st))"
  unfolding eligible_def
  by (rule order_trans [OF length_filter_le]) simp

lemma eligible_shrinks:
  assumes len: "length (loc_illegals st) = length (agents (self st))"
    and ill: "any (loc_illegals st)"
  shows "length (eligible old (resolve_pass old st)) < length (eligible old st)"
proof -
  let ?n = "length (agents (self st))"
  let ?st = "resolve_pass old st"
  let ?A = "{i. i < ?n \<and> (loc_illegals st ! i \<or>
               (\<not> is_done (agents (self st) ! i) \<and> pos (agents (self st) ! i) \<noteq> old ! i))}"
  let ?B = "{i. i < length (agents (self ?st)) \<and> (loc_illegals ?st ! i \<or>
               (\<not> is_done (agents (self ?st) ! i) \<and> pos (agents (self ?st) ! i) \<noteq> old ! i))}"
  obtain k where k: "k < ?n" "loc_illegals st ! k"
    using ill len by (auto simp: any_iff)
  have sub: "?B \<subseteq> ?A"
  proof
    fix i assume "i \<in> ?B"
    then have i: "i < ?n" and
      c: "loc_illegals ?st ! i \<or>
          (\<not> is_done (agents (self ?st) ! i) \<and> pos (agents (self ?st) ! i) \<noteq> old ! i)"
      by simp_all
    have "\<not> skipped old (self ?st) i"
      using c resolve_pass_illegals [OF i len, of old] by (auto simp: skipped_def)
    then show "i \<in> ?A"
      using i resolve_pass_agents [OF i len, of old]
      by (auto simp: skipped_def split: if_splits)
  qed
  have "k \<in> ?A" using k by simp
  moreover have "k \<notin> ?B"
  proof -
    have "skipped old (self ?st) k"
      using k resolve_pass_agents [OF k(1) len, of old] by (simp add: skipped_def)
    then show ?thesis
      using resolve_pass_illegals [OF k(1) len, of old] by (auto simp: skipped_def)
  qed
  ultimately have "?B \<subset> ?A" using sub by blast
  moreover have "finite ?A" by simp
  ultimately have "card ?B < card ?A" by (rule psubset_card_mono [rotated])
  then show ?thesis by (simp only: length_eligible)
qed

section \<open>The transition function\<close>

text \<open>
  C6. The claim: for an action that is none of left, right, up and down the transition
  function fails with the UnknownAction exception instead of returning the position
  unchanged. The code does not: no input makes \<open>trans_function\<close> raise UnknownAction, and
  with the action 4 at the cell (2, 2) it returns (2, 2).
\<close>

theorem trans_function_unknown_action:
  "(\<forall>s state action noise. trans_function s state action noise \<noteq> Inl UnknownAction) \<and>
   trans_function (world [] free_grid) (2, 2) 4 0 = Inr (2, 2)"
proof
  show "\<forall>s state action noise. trans_function s state action noise \<noteq> Inl UnknownAction"
    by (simp add: trans_function_def getitem_def Let_def split: prod.splits sum.splits)
  show "trans_function (world [] free_grid) (2, 2) 4 0 = Inr (2, 2)"
    by (simp add: trans_function_def getitem_def world_def LegalActions_up_def
        LegalActions_down_def LegalActions_left_def LegalActions_right_def)
qed

lemma solve_conflicts_rule:
  assumes "length (loc_illegals st) = length (agents (self st))"
    and "P st"
    and pass: "\<And>st. length (loc_illegals st) = length (agents (self st)) \<Longrightarrow> P st \<Longrightarrow>
                 any (loc_illegals st) \<Longrightarrow> P (resolve_pass old st)"
  shows "\<exists>st'. solve_conflicts old st = Some st' \<and> P st' \<and> \<not> any (loc_illegals st')"
  using assms(1,2)
proof (induction "length (eligible old st)" arbitrary: st rule: less_induct)
  case less
  show ?case
  proof (cases "any (loc_illegals st)")
    case False
    then have "solve_conflicts old st = Some st"
      by (subst solve_conflicts.simps) simp
    then show ?thesis using False less.prems by simp
  next
    case True
    let ?st = "resolve_pass old st"
    have "length (eligible old ?st) < length (eligible old st)"
      by (rule eligible_shrinks [OF less.prems(1) True])
    moreover have "length (loc_illegals ?st) = length (agents (self ?st))"
      using less.prems(1) by simp
    moreover have "P ?st"
      by (rule pass [OF less.prems True])
    ultimately have "\<exists>st'. solve_conflicts old ?st = Some st' \<and> P st' \<and> \<not> any (loc_illegals st')"
      by (rule less.hyps)
    moreover have "solve_conflicts old st = solve_conflicts old ?st"
      using True by (subst solve_conflicts.simps) simp
    ultimately show ?thesis by simp
  qed
qed

lemma solve_conflicts_passes:
  assumes "length (loc_illegals st) = length (agents (self st))"
  shows "\<exists>k\<le>length (eligible old st).
           solve_conflicts old st = Some ((resolve_pass old ^^ k) st) \<and>
           \<not> any (loc_illegals ((resolve_pass old ^^ k) st)) \<and>
           (\<forall>j<k. any (loc_illegals ((resolve_pass old ^^ j) st)))"
  using assms
proof (induction "length (eligible old st)" arbitrary: st rule: less_induct)
  case less
  show ?case
  proof (cases "any (loc_illegals st)")
    case False
    then have "solve_conflicts old st = Some st"
      by (subst solve_conflicts.simps) simp
    then show ?thesis using False by (intro exI [of _ 0]) simp
  next
    case True
    let ?st = "resolve_pass old st"
    have lt: "length (eligible old ?st) < length (eligible old st)"
      by (rule eligible_shrinks [OF less.prems True])
    have "length (loc_illegals ?st) = length (agents (self ?st))"
      using less.prems by simp
    from less.hyps [OF lt this] obtain k where k: "k \<le> length (eligible old ?st)"
      "solve_conflicts old ?st = Some ((resolve_pass old ^^ k) ?st)"
      "\<not> any (loc_illegals ((resolve_pass old ^^ k) ?st))"
      "\<forall>j<k. any (loc_illegals ((resolve_pass old ^^ j) ?st))"
      by blast
    have unfold: "solve_conflicts old st = solve_conflicts old ?st"
      using True by (subst solve_conflicts.simps) simp
    have swap: "(resolve_pass old ^^ j) ?st = (resolve_pass old ^^ Suc j) st" for j
      by (simp add: funpow_swap1)
    have "\<forall>j<Suc k. any (loc_illegals ((resolve_pass old ^^ j) st))"
    proof (intro allI impI)
      fix j assume j: "j < Suc k"
      show "any (loc_illegals ((resolve_pass old ^^ j) st))"
      proof (cases j)
        case 0
        then show ?thesis using True by simp
      next
        case (Suc j')
        then have "j' < k" using j by simp
        then have "any (loc_illegals ((resolve_pass old ^^ j') ?st))" using k(4) by blast
        then show ?thesis by (metis Suc swap)
      qed
    qed
    moreover have "Suc k \<le> length (eligible old st)" using k(1) lt by simp
    moreover have "solve_conflicts old st = Some ((resolve_pass old ^^ Suc k) st)"
      by (metis k(2) unfold swap)
    moreover have "\<not> any (loc_illegals ((resolve_pass old ^^ Suc k) st))"
      by (metis k(3) swap)
    ultimately show ?thesis by blast
  qed
qed

lemma first_evaluation_frame [simp]:
  "self (first_evaluation st) = self st"
  "length (loc_illegals (first_evaluation st)) = length (loc_illegals st)"
  "length (loc_rewards (first_evaluation st)) = length (loc_rewards st)"
  "length (loc_done (first_evaluation st)) = length (loc_done st)"
  by (simp_all add: first_evaluation_eq)

lemma first_evaluation_nth:
  assumes "i < length (agents (self st))"
  shows "length (loc_illegals st) = length (agents (self st)) \<Longrightarrow>
         loc_illegals (first_evaluation st) ! i =
           (if is_done (agents (self st) ! i) then loc_illegals st ! i
            else fst (snd (reward_agent (self st) i)))"
    and "length (loc_rewards st) = length (agents (self st)) \<Longrightarrow>
         loc_rewards (first_evaluation st) ! i =
           (if is_done (agents (self st) ! i) then loc_rewards st ! i
            else fst (reward_agent (self st) i))"
    and "length (loc_done st) = length (agents (self st)) \<Longrightarrow>
         loc_done (first_evaluation st) ! i =
           (if is_done (agents (self st) ! i) then loc_done st ! i
            else snd (snd (reward_agent (self st) i)))"
  using assms
  by (simp_all add: first_evaluation_eq fold_eval_if_illegals fold_eval_if_rewards
      fold_eval_if_done)

lemma entry_frame [simp]:
  "self (entry s3 k) = s3"
  "length (loc_illegals (entry s3 k)) = length (agents s3)"
  "length (loc_rewards (entry s3 k)) = k"
  "length (loc_done (entry s3 k)) = length (agents s3)"
  by (simp_all add: entry_def)

lemma entry_nth:
  assumes "i < length (agents s3)"
  shows "loc_illegals (entry s3 k) ! i =
           (if is_done (agents s3 ! i) then False else fst (snd (reward_agent s3 i)))"
    and "k = length (agents s3) \<Longrightarrow> loc_rewards (entry s3 k) ! i =
           (if is_done (agents s3 ! i) then 0 else fst (reward_agent s3 i))"
    and "loc_done (entry s3 k) ! i =
           (if is_done (agents s3 ! i) then True else snd (snd (reward_agent s3 i)))"
  using assms by (simp_all add: entry_def first_evaluation_nth)

lemma reward_agent_depleted:
  "battery (agents s ! i) \<le> 0 \<Longrightarrow>
   fst (reward_agent s i) = rewards s Battery_depleted \<and> snd (snd (reward_agent s i))"
  by (simp add: reward_agent_def Let_def)

lemma moved_only_refl: "moved_only old s s"
  by (simp add: moved_only_def)

lemma moved_only_pass:
  assumes len: "length (loc_illegals st) = length (agents (self st))"
    and mo: "moved_only old s3 (self st)"
  shows "moved_only old s3 (self (resolve_pass old st))"
proof -
  have n: "length (agents (self st)) = length (agents s3)"
    using mo by (simp add: moved_only_def)
  have "agents (self (resolve_pass old st)) ! i =
          (agents s3 ! i)\<lparr>pos := pos (agents (self (resolve_pass old st)) ! i)\<rparr> \<and>
        (pos (agents (self (resolve_pass old st)) ! i) = pos (agents s3 ! i) \<or>
         pos (agents (self (resolve_pass old st)) ! i) = old ! i)"
    if i: "i < length (agents s3)" for i
  proof -
    have a: "agents (self st) ! i = (agents s3 ! i)\<lparr>pos := pos (agents (self st) ! i)\<rparr>"
      and p: "pos (agents (self st) ! i) = pos (agents s3 ! i) \<or> pos (agents (self st) ! i) = old ! i"
      using mo i by (simp_all add: moved_only_def)
    have i': "i < length (agents (self st))" using i n by simp
    show ?thesis
    proof (cases "loc_illegals st ! i")
      case True
      then have "agents (self (resolve_pass old st)) ! i = (agents (self st) ! i)\<lparr>pos := old ! i\<rparr>"
        using resolve_pass_agents [OF i' len, of old] by simp
      moreover have "(agents (self st) ! i)\<lparr>pos := old ! i\<rparr> = (agents s3 ! i)\<lparr>pos := old ! i\<rparr>"
        by (subst a) simp
      ultimately have "agents (self (resolve_pass old st)) ! i = (agents s3 ! i)\<lparr>pos := old ! i\<rparr>"
        by simp
      then show ?thesis by simp
    next
      case False
      then have "agents (self (resolve_pass old st)) ! i = agents (self st) ! i"
        using resolve_pass_agents [OF i' len, of old] by simp
      then show ?thesis using a p by simp
    qed
  qed
  then show ?thesis
    using mo by (simp add: moved_only_def)
qed

lemma evaluated_entry: "evaluated old (entry s3 k)"
  by (simp add: evaluated_def entry_nth skipped_def)

lemma evaluated_pass:
  assumes "length (loc_illegals st) = length (agents (self st))"
  shows "evaluated old (resolve_pass old st)"
  using assms by (simp add: evaluated_def resolve_pass_illegals)

lemma depleted_entry: "k = length (agents s3) \<Longrightarrow> depleted (entry s3 k)"
  by (simp add: depleted_def entry_nth reward_agent_depleted)

lemma depleted_pass:
  assumes c: "consistent st" and d: "depleted st"
  shows "depleted (resolve_pass old st)"
proof -
  let ?st = "resolve_pass old st"
  have len: "length (loc_illegals st) = length (agents (self st))"
    "length (loc_rewards st) = length (agents (self st))"
    "length (loc_done st) = length (agents (self st))"
    using c by (simp_all add: consistent_def)
  have "loc_rewards ?st ! i = rewards (self ?st) Battery_depleted \<and> loc_done ?st ! i"
    if i: "i < length (agents (self st))"
      and nd: "\<not> is_done (agents (self ?st) ! i)"
      and b: "battery (agents (self ?st) ! i) \<le> 0" for i
  proof (cases "skipped old (self ?st) i")
    case True
    have "is_done (agents (self ?st) ! i) = is_done (agents (self st) ! i)"
      and "battery (agents (self ?st) ! i) = battery (agents (self st) ! i)"
      using resolve_pass_agents [OF i len(1), of old] by simp_all
    then have "loc_rewards st ! i = rewards (self st) Battery_depleted \<and> loc_done st ! i"
      using d i nd b by (simp add: depleted_def)
    then show ?thesis
      using True resolve_pass_rewards [OF i len(2), of old] resolve_pass_done [OF i len(3), of old]
      by simp
  next
    case False
    then show ?thesis
      using resolve_pass_rewards [OF i len(2), of old] resolve_pass_done [OF i len(3), of old]
        reward_agent_depleted [OF b]
      by simp
  qed
  then show ?thesis by (simp add: depleted_def)
qed

lemma entry_consistent: "k = length (agents s3) \<Longrightarrow> consistent (entry s3 k)"
  by (simp add: consistent_def)

lemma resolution_of_entry:
  assumes k: "k = length (agents s3)"
  obtains st' where "solve_conflicts old (entry s3 k) = Some st'"
    and "\<not> any (loc_illegals st')" and "consistent st'"
    and "moved_only old s3 (self st')" and "evaluated old st'" and "depleted st'"
proof -
  let ?P = "\<lambda>st. consistent st \<and> moved_only old s3 (self st) \<and> evaluated old st \<and> depleted st"
  have "\<exists>st'. solve_conflicts old (entry s3 k) = Some st' \<and> ?P st' \<and> \<not> any (loc_illegals st')"
  proof (rule solve_conflicts_rule)
    show "length (loc_illegals (entry s3 k)) = length (agents (self (entry s3 k)))"
      by simp
    show "?P (entry s3 k)"
      using k by (simp add: entry_consistent moved_only_refl evaluated_entry depleted_entry)
    show "?P (resolve_pass old st)"
      if "length (loc_illegals st) = length (agents (self st))" and "?P st" for st
      using that
      by (simp add: resolve_pass_consistent moved_only_pass evaluated_pass depleted_pass)
  qed
  then show ?thesis using that by blast
qed

lemma step_outcomes:
  obtains (assertion) "length acts \<noteq> length (agents s)"
      and "step s acts = Some (Inl AssertionError, s\<lparr>step_count := step_count s + 1\<rparr>)"
  | (index) e s2 where "length acts = length (agents s)"
      and "compute_moves acts [0..<length (agents s)] (map pos (agents s))
             (s\<lparr>step_count := step_count s + 1\<rparr>) = (Inl e, s2)"
      and "step s acts = Some (Inl e, s2)"
  | (resolved) mv s2 st' e s4 where "length acts = length (agents s)"
      and "compute_moves acts [0..<length (agents s)] (map pos (agents s))
             (s\<lparr>step_count := step_count s + 1\<rparr>) = (Inr mv, s2)"
      and "solve_conflicts (map pos (agents s)) (entry (apply_moves mv s2) (length acts)) = Some st'"
      and "\<not> any (loc_illegals st')" and "consistent st'"
      and "moved_only (map pos (agents s)) (apply_moves mv s2) (self st')"
      and "evaluated (map pos (agents s)) st'" and "depleted st'"
      and "finish (loc_done st') [0..<length (agents s)] (self st') = (e, s4)"
      and "step s acts =
             Some (case e of Some x \<Rightarrow> Inl x
                   | None \<Rightarrow> Inr (loc_rewards st', map is_done (agents s4)), s4)"
proof (cases "length acts = length (agents s)")
  case False
  then have "step s acts = Some (Inl AssertionError, s\<lparr>step_count := step_count s + 1\<rparr>)"
    by (simp add: step_def)
  with False show ?thesis by (rule assertion)
next
  case len: True
  let ?s1 = "s\<lparr>step_count := step_count s + 1\<rparr>"
  obtain r s2 where cm: "compute_moves acts [0..<length (agents s)] (map pos (agents s)) ?s1 = (r, s2)"
    by (cases "compute_moves acts [0..<length (agents s)] (map pos (agents s)) ?s1")
  have s2: "agents s2 = agents s"
    using compute_moves_frame(1) [of acts "[0..<length (agents s)]" "map pos (agents s)" ?s1] cm
    by simp
  show ?thesis
  proof (cases r)
    case (Inl e)
    have "step s acts = Some (Inl e, s2)"
      using len cm Inl by (simp add: step_def)
    with len cm Inl show ?thesis by (intro index) simp_all
  next
    case (Inr mv)
    let ?old = "map pos (agents s)"
    let ?s3 = "apply_moves mv s2"
    have k: "length acts = length (agents ?s3)" using len s2 by simp
    obtain st' where st': "solve_conflicts ?old (entry ?s3 (length acts)) = Some st'"
      "\<not> any (loc_illegals st')" "consistent st'" "moved_only ?old ?s3 (self st')"
      "evaluated ?old st'" "depleted st'"
      by (rule resolution_of_entry [OF k])
    have n: "length (agents (self st')) = length (agents s)"
      using st'(4) s2 by (simp add: moved_only_def)
    obtain e s4 where fin: "finish (loc_done st') [0..<length (agents s)] (self st') = (e, s4)"
      by (cases "finish (loc_done st') [0..<length (agents s)] (self st')")
    have "step s acts =
             Some (case e of Some x \<Rightarrow> Inl x
                   | None \<Rightarrow> Inr (loc_rewards st', map is_done (agents s4)), s4)"
      using len cm Inr st'(1) fin n s2
      by (simp add: step_def entry_def split: option.splits)
    with len cm Inr st' fin show ?thesis by (intro resolved) simp_all
  qed
qed

lemma step_returns: "\<exists>r s'. step s acts = Some (r, s')"
  by (rule step_outcomes [of acts s]) simp_all

lemma set_budget_simps [simp]:
  "agents (set_budget c m s) = agents s"
  "grid (set_budget c m s) = grid s"
  "np_random (set_budget c m s) = np_random s"
  "drawn (set_budget c m s) = drawn s"
  "col_wind (set_budget c m s) = col_wind s"
  "rewards (set_budget c m s) = rewards s"
  "step_count (set_budget c m s) = c"
  "max_steps (set_budget c m s) = m"
  by (simp_all add: set_budget_def)

lemma set_budget_res_simps [simp]:
  "self (set_budget_res c m st) = set_budget c m (self st)"
  "loc_rewards (set_budget_res c m st) = loc_rewards st"
  "loc_illegals (set_budget_res c m st) = loc_illegals st"
  "loc_done (set_budget_res c m st) = loc_done st"
  by (simp_all add: set_budget_res_def)

lemma fold_commute:
  assumes "\<And>x s. h x (f s) = f (h x s)"
  shows "fold h xs (f s) = f (fold h xs s)"
  by (induction xs arbitrary: s) (simp_all add: assms)

lemma trans_function_budget [simp]:
  "trans_function (set_budget c m s) = trans_function s"
  by (intro ext) (simp add: trans_function_def)

lemma trans_function_drawn [simp]:
  "trans_function (s\<lparr>drawn := d\<rparr>) = trans_function s"
  by (intro ext) (simp add: trans_function_def)

lemma compute_moves_budget:
  "compute_moves acts ids mv (set_budget c m s) =
     (fst (compute_moves acts ids mv s), set_budget c m (snd (compute_moves acts ids mv s)))"
proof (induction ids arbitrary: mv s)
  case Nil
  show ?case by simp
next
  case (Cons i ids)
  have eq: "(set_budget c m s)\<lparr>drawn := Suc (drawn s)\<rparr> = set_budget c m (s\<lparr>drawn := Suc (drawn s)\<rparr>)"
    by (simp add: set_budget_def)
  show ?case
    by (simp add: Cons.IH eq split: sum.splits)
qed

lemma apply_move_budget:
  "apply_move mv i (set_budget c m s) = set_budget c m (apply_move mv i s)"
  by (simp add: apply_move_def set_budget_def)

lemma apply_moves_budget:
  "apply_moves mv (set_budget c m s) = set_budget c m (apply_moves mv s)"
  by (simp add: apply_moves_def fold_commute [where f = "set_budget c m"] apply_move_budget)

lemma reward_agent_budget [simp]:
  "reward_agent (set_budget c m s) i = reward_agent s i"
  by (simp add: reward_agent_def in_bounds_def other_positions_def Let_def)

lemma evaluate_budget:
  "evaluate i (set_budget_res c m st) = set_budget_res c m (evaluate i st)"
  by (simp add: evaluate_def set_budget_res_def split: prod.splits)

lemma first_evaluation_budget:
  "first_evaluation (set_budget_res c m st) = set_budget_res c m (first_evaluation st)"
  unfolding first_evaluation_def
  by (simp add: fold_commute [where f = "set_budget_res c m"] evaluate_budget)

lemma cancel_move_budget:
  "cancel_move old i (set_budget_res c m st) = set_budget_res c m (cancel_move old i st)"
  by (simp add: cancel_move_def set_budget_res_def set_budget_def)

lemma reevaluate_budget:
  "reevaluate old i (set_budget_res c m st) = set_budget_res c m (reevaluate old i st)"
  by (simp add: reevaluate_def evaluate_budget)

lemma resolve_pass_budget:
  "resolve_pass old (set_budget_res c m st) = set_budget_res c m (resolve_pass old st)"
proof -
  have c: "cancel_moves old (set_budget_res c m st) = set_budget_res c m (cancel_moves old st)"
    unfolding cancel_moves_def
    by (simp add: fold_commute [where f = "set_budget_res c m"] cancel_move_budget)
  have "reevaluation old (set_budget_res c m st') = set_budget_res c m (reevaluation old st')" for st'
    unfolding reevaluation_def
    by (simp add: fold_commute [where f = "set_budget_res c m"] reevaluate_budget)
  then show ?thesis by (simp add: resolve_pass_def c)
qed

lemma solve_conflicts_funpow:
  "\<not> any (loc_illegals ((resolve_pass old ^^ k) st)) \<Longrightarrow>
   \<forall>j<k. any (loc_illegals ((resolve_pass old ^^ j) st)) \<Longrightarrow>
   solve_conflicts old st = Some ((resolve_pass old ^^ k) st)"
proof (induction k arbitrary: st)
  case 0
  then show ?case by (subst solve_conflicts.simps) simp
next
  case (Suc k)
  have swap: "(resolve_pass old ^^ j) (resolve_pass old st) = (resolve_pass old ^^ Suc j) st" for j
    by (simp add: funpow_swap1)
  have "any (loc_illegals st)" using Suc.prems(2) by force
  then have "solve_conflicts old st = solve_conflicts old (resolve_pass old st)"
    by (subst solve_conflicts.simps) simp
  moreover have "solve_conflicts old (resolve_pass old st) =
                 Some ((resolve_pass old ^^ k) (resolve_pass old st))"
  proof (rule Suc.IH)
    show "\<not> any (loc_illegals ((resolve_pass old ^^ k) (resolve_pass old st)))"
      by (metis Suc.prems(1) swap)
    show "\<forall>j<k. any (loc_illegals ((resolve_pass old ^^ j) (resolve_pass old st)))"
      by (metis Suc.prems(2) swap Suc_mono)
  qed
  ultimately show ?case by (metis swap)
qed

lemma funpow_pass_budget:
  "(resolve_pass old ^^ k) (set_budget_res c m st) = set_budget_res c m ((resolve_pass old ^^ k) st)"
  by (induction k) (simp_all add: resolve_pass_budget)

lemma solve_conflicts_budget:
  assumes "length (loc_illegals st) = length (agents (self st))"
  shows "solve_conflicts old (set_budget_res c m st) =
           map_option (set_budget_res c m) (solve_conflicts old st)"
proof -
  obtain k where k: "solve_conflicts old st = Some ((resolve_pass old ^^ k) st)"
    "\<not> any (loc_illegals ((resolve_pass old ^^ k) st))"
    "\<forall>j<k. any (loc_illegals ((resolve_pass old ^^ j) st))"
    using solve_conflicts_passes [OF assms, of old] by blast
  have "solve_conflicts old (set_budget_res c m st) =
        Some ((resolve_pass old ^^ k) (set_budget_res c m st))"
    by (rule solve_conflicts_funpow) (simp_all add: funpow_pass_budget k)
  then show ?thesis by (simp add: k(1) funpow_pass_budget)
qed

lemma finish_agent_budget:
  "finish_agent dn i x (set_budget c m s) = set_budget c m (finish_agent dn i x s)"
  by (simp add: finish_agent_def set_budget_def)

lemma finish_budget:
  "finish dn ids (set_budget c m s) =
     (fst (finish dn ids s), set_budget c m (snd (finish dn ids s)))"
  by (induction ids arbitrary: s) (simp_all add: finish_agent_budget split: sum.splits)

lemma set_budget_res_make:
  "\<lparr>self = set_budget c m s, loc_rewards = a, loc_illegals = b, loc_done = d\<rparr> =
   set_budget_res c m \<lparr>self = s, loc_rewards = a, loc_illegals = b, loc_done = d\<rparr>"
  by (simp add: set_budget_res_def)

lemma step_budget:
  "step (set_budget c m s) acts =
     map_option (\<lambda>(r, s'). (r, set_budget (c + 1) m s')) (step s acts)"
proof -
  let ?f = "set_budget (c + 1) m"
  let ?g = "set_budget_res (c + 1) m"
  let ?s1 = "s\<lparr>step_count := step_count s + 1\<rparr>"
  let ?ids = "[0..<length (agents s)]"
  let ?old = "map pos (agents s)"
  have s1: "(set_budget c m s)\<lparr>step_count := c + 1\<rparr> = ?f ?s1"
    by (simp add: set_budget_def)
  show ?thesis
  proof (cases "length acts = length (agents s)")
    case False
    then show ?thesis by (simp add: step_def s1)
  next
    case len: True
    obtain r s2 where cm: "compute_moves acts ?ids ?old ?s1 = (r, s2)"
      by (cases "compute_moves acts ?ids ?old ?s1")
    have cm': "compute_moves acts ?ids ?old (?f ?s1) = (r, ?f s2)"
      by (simp add: compute_moves_budget cm)
    show ?thesis
    proof (cases r)
      case (Inl e)
      then show ?thesis using len cm cm' by (simp add: step_def s1)
    next
      case (Inr mv)
      have s2: "agents s2 = agents s"
        using compute_moves_frame(1) [of acts ?ids ?old ?s1] cm by simp
      let ?s3 = "apply_moves mv s2"
      let ?st0 = "first_evaluation
                    \<lparr>self = ?s3, loc_rewards = replicate (length acts) 0,
                     loc_illegals = map (\<lambda>agent. False) (agents ?s3),
                     loc_done = map is_done (agents ?s3)\<rparr>"
      have st0: "first_evaluation
                    \<lparr>self = apply_moves mv (?f s2), loc_rewards = replicate (length acts) 0,
                     loc_illegals = map (\<lambda>agent. False) (agents (apply_moves mv (?f s2))),
                     loc_done = map is_done (agents (apply_moves mv (?f s2)))\<rparr> = ?g ?st0"
        by (simp add: apply_moves_budget set_budget_res_make first_evaluation_budget)
      have sc: "solve_conflicts ?old (?g ?st0) = map_option ?g (solve_conflicts ?old ?st0)"
        by (rule solve_conflicts_budget) simp
      show ?thesis
      proof (cases "solve_conflicts ?old ?st0")
        case None
        then show ?thesis
          using len cm cm' Inr s2 sc st0 by (simp add: step_def s1)
      next
        case (Some st')
        have fin: "finish (loc_done st') [0..<length (agents (self st'))] (?f (self st')) =
                (fst (finish (loc_done st') [0..<length (agents (self st'))] (self st')),
                 ?f (snd (finish (loc_done st') [0..<length (agents (self st'))] (self st'))))"
          by (rule finish_budget)
        show ?thesis
          using len cm cm' Inr s2 sc st0 Some fin
          by (simp add: step_def s1 split: prod.splits option.splits)
      qed
    qed
  qed
qed

lemma step_count_increment:
  "\<exists>r s'. step s acts = Some (r, s') \<and> step_count s' = step_count s + 1 \<and>
           max_steps s' = max_steps s"
proof (rule step_outcomes [of acts s])
  assume "step s acts = Some (Inl AssertionError, s\<lparr>step_count := step_count s + 1\<rparr>)"
  then show ?thesis by simp
next
  fix e s2
  assume cm: "compute_moves acts [0..<length (agents s)] (map pos (agents s))
             (s\<lparr>step_count := step_count s + 1\<rparr>) = (Inl e, s2)"
    and st: "step s acts = Some (Inl e, s2)"
  have "step_count s2 = step_count s + 1" "max_steps s2 = max_steps s"
    using compute_moves_frame(5,6) [of acts "[0..<length (agents s)]" "map pos (agents s)"
        "s\<lparr>step_count := step_count s + 1\<rparr>"] cm by simp_all
  then show ?thesis using st by simp
next
  fix mv s2 st' e s4
  assume cm: "compute_moves acts [0..<length (agents s)] (map pos (agents s))
             (s\<lparr>step_count := step_count s + 1\<rparr>) = (Inr mv, s2)"
    and mo: "moved_only (map pos (agents s)) (apply_moves mv s2) (self st')"
    and fin: "finish (loc_done st') [0..<length (agents s)] (self st') = (e, s4)"
    and st: "step s acts =
             Some (case e of Some x \<Rightarrow> Inl x
                   | None \<Rightarrow> Inr (loc_rewards st', map is_done (agents s4)), s4)"
  have "step_count s2 = step_count s + 1" "max_steps s2 = max_steps s"
    using compute_moves_frame(5,6) [of acts "[0..<length (agents s)]" "map pos (agents s)"
        "s\<lparr>step_count := step_count s + 1\<rparr>"] cm by simp_all
  moreover have "step_count (self st') = step_count s2" "max_steps (self st') = max_steps s2"
    using mo by (simp_all add: moved_only_def)
  moreover have "step_count s4 = step_count (self st')" "max_steps s4 = max_steps (self st')"
    using finish_frame(6,7) [of "loc_done st'" "[0..<length (agents s)]" "self st'"] fin
    by simp_all
  ultimately show ?thesis using st by simp
qed

text \<open>
  C9. Every call of \<open>step\<close> returns or raises with the step counter one higher than
  before, and neither the counter nor \<open>max_steps\<close> has any influence: started with any
  other counter \<open>c\<close> and budget \<open>m\<close>, the call has the same outcome (rewards, done flags or
  exception) and leaves the same object, but for these two fields. In particular nothing
  is truncated when the counter reaches \<open>max_steps\<close>.
\<close>

theorem step_counter_never_consulted:
  "(\<forall>s acts. \<exists>r s'. step s acts = Some (r, s') \<and> step_count s' = step_count s + 1 \<and>
                      max_steps s' = max_steps s) \<and>
   (\<forall>s acts c m. step (set_budget c m s) acts =
                    map_option (\<lambda>(r, s'). (r, set_budget (c + 1) m s')) (step s acts))"
  using step_count_increment step_budget by blast

lemma moved_only_done:
  assumes "moved_only old s3 s" and "i < length (agents s3)"
    and "old ! i = pos (agents s3 ! i)"
  shows "agents s ! i = agents s3 ! i"
proof -
  have a: "agents s ! i = (agents s3 ! i)\<lparr>pos := pos (agents s ! i)\<rparr>"
    and "pos (agents s ! i) = pos (agents s3 ! i) \<or> pos (agents s ! i) = old ! i"
    using assms(1,2) by (simp_all add: moved_only_def)
  then have "pos (agents s ! i) = pos (agents s3 ! i)" using assms(3) by auto
  then show ?thesis by (subst a) simp
qed

lemma step_done_agent:
  assumes "step s acts = Some (r, s')" and "i < length (agents s)"
    and "is_done (agents s ! i)"
  shows "agents s' ! i = agents s ! i"
proof (rule step_outcomes [of acts s])
  assume "step s acts = Some (Inl AssertionError, s\<lparr>step_count := step_count s + 1\<rparr>)"
  then show ?thesis using assms(1) by simp
next
  fix e s2
  assume cm: "compute_moves acts [0..<length (agents s)] (map pos (agents s))
             (s\<lparr>step_count := step_count s + 1\<rparr>) = (Inl e, s2)"
    and st: "step s acts = Some (Inl e, s2)"
  have "agents s2 = agents s"
    using compute_moves_frame(1) [of acts "[0..<length (agents s)]" "map pos (agents s)"
        "s\<lparr>step_count := step_count s + 1\<rparr>"] cm by simp
  then show ?thesis using st assms(1) by simp
next
  fix mv s2 st' e s4
  assume cm: "compute_moves acts [0..<length (agents s)] (map pos (agents s))
             (s\<lparr>step_count := step_count s + 1\<rparr>) = (Inr mv, s2)"
    and mo: "moved_only (map pos (agents s)) (apply_moves mv s2) (self st')"
    and fin: "finish (loc_done st') [0..<length (agents s)] (self st') = (e, s4)"
    and st: "step s acts =
             Some (case e of Some x \<Rightarrow> Inl x
                   | None \<Rightarrow> Inr (loc_rewards st', map is_done (agents s4)), s4)"
  have s2: "agents s2 = agents s"
    using compute_moves_frame(1) [of acts "[0..<length (agents s)]" "map pos (agents s)"
        "s\<lparr>step_count := step_count s + 1\<rparr>"] cm by simp
  have s3: "agents (apply_moves mv s2) ! i = agents s ! i"
    using assms(2,3) s2 by (simp add: apply_moves_nth)
  have "agents (self st') ! i = agents (apply_moves mv s2) ! i"
    using mo assms(2) s2 s3 by (intro moved_only_done [OF mo]) simp_all
  then have st': "agents (self st') ! i = agents s ! i" using s3 by simp
  have n: "length (agents (self st')) = length (agents s)"
    using mo s2 by (simp add: moved_only_def)
  have "agents (snd (finish (loc_done st') [0..<length (agents s)] (self st'))) ! i =
        agents (self st') ! i"
    using assms(2,3) st' n by (intro finish_done) simp_all
  then have "agents s4 ! i = agents s ! i" using fin st' by simp
  moreover have "s' = s4" using st assms(1) by simp
  ultimately show ?thesis by simp
qed

text \<open>
  C8. An agent that is done when \<open>step\<close> is called is the same after the call, whatever
  the call does and however it ends: its position, its battery and its done flag are
  unchanged (and so are its other fields).
\<close>

theorem done_agent_unchanged:
  assumes "step s acts = Some (r, s')" and "i < length (agents s)"
    and "is_done (agents s ! i)"
  shows "pos (agents s' ! i) = pos (agents s ! i) \<and>
         battery (agents s' ! i) = battery (agents s ! i) \<and>
         is_done (agents s' ! i) \<and> agents s' ! i = agents s ! i"
  using step_done_agent [OF assms] assms(3) by simp

theorem done_agent_unchanged_witness:
  "\<exists>r s'. step (world [mk_agent 0 (0, 0) (4, 4) 150 False, mk_agent 1 (0, 1) (0, 1) 60 True]
                  free_grid) [1, 0] = Some (r, s') \<and>
     (1::nat) < length (agents (world [mk_agent 0 (0, 0) (4, 4) 150 False,
                                       mk_agent 1 (0, 1) (0, 1) 60 True] free_grid)) \<and>
     is_done (agents (world [mk_agent 0 (0, 0) (4, 4) 150 False,
                             mk_agent 1 (0, 1) (0, 1) 60 True] free_grid) ! 1) \<and>
     pos (agents s' ! 1) = (0, 1) \<and> battery (agents s' ! 1) = 60 \<and> is_done (agents s' ! 1)"
proof -
  let ?w = "world [mk_agent 0 (0, 0) (4, 4) 150 False, mk_agent 1 (0, 1) (0, 1) 60 True] free_grid"
  obtain r s' where st: "step ?w [1, 0] = Some (r, s')"
    using step_returns [of ?w "[1, 0]"] by blast
  have i: "(1::nat) < length (agents ?w)" and d: "is_done (agents ?w ! 1)"
    by (simp_all add: world_def mk_agent_def)
  from done_agent_unchanged [OF st i d] show ?thesis
    using st i d by (simp add: world_def mk_agent_def)
qed

lemma length_filter_nth:
  "length (filter (\<lambda>i. P (xs ! i)) [0..<length xs]) = length (filter P xs)"
proof -
  have "filter P xs = filter P (map (nth xs) [0..<length xs])"
    by (simp add: map_nth)
  also have "\<dots> = map (nth xs) (filter (\<lambda>i. P (xs ! i)) [0..<length xs])"
    by (simp add: filter_map comp_def)
  finally show ?thesis by simp
qed

lemma step_drawn:
  assumes "step s acts = Some (Inr out, s')"
  shows "drawn s' = drawn s + length (filter (\<lambda>agent. \<not> is_done agent) (agents s))"
proof (rule step_outcomes [of acts s])
  assume "step s acts = Some (Inl AssertionError, s\<lparr>step_count := step_count s + 1\<rparr>)"
  then show ?thesis using assms by simp
next
  fix e s2
  assume "step s acts = Some (Inl e, s2)"
  then show ?thesis using assms by simp
next
  fix mv s2 st' e s4
  let ?s1 = "s\<lparr>step_count := step_count s + 1\<rparr>"
  assume cm: "compute_moves acts [0..<length (agents s)] (map pos (agents s)) ?s1 = (Inr mv, s2)"
    and mo: "moved_only (map pos (agents s)) (apply_moves mv s2) (self st')"
    and fin: "finish (loc_done st') [0..<length (agents s)] (self st') = (e, s4)"
    and st: "step s acts =
             Some (case e of Some x \<Rightarrow> Inl x
                   | None \<Rightarrow> Inr (loc_rewards st', map is_done (agents s4)), s4)"
  have "drawn s2 = drawn ?s1 +
          length (filter (\<lambda>i. \<not> is_done (agents ?s1 ! i)) [0..<length (agents s)])"
    using compute_moves_drawn [of acts "[0..<length (agents s)]" "map pos (agents s)" ?s1 mv] cm
    by simp
  then have "drawn s2 = drawn s + length (filter (\<lambda>agent. \<not> is_done agent) (agents s))"
    by (simp add: length_filter_nth [of "\<lambda>agent. \<not> is_done agent"])
  moreover have "drawn (self st') = drawn s2"
    using mo by (simp add: moved_only_def)
  moreover have "drawn s4 = drawn (self st')"
    using finish_frame(4) [of "loc_done st'" "[0..<length (agents s)]" "self st'"] fin by simp
  moreover have "s' = s4" using st assms by (simp split: option.splits)
  ultimately show ?thesis by simp
qed

text \<open>
  C7. The claim: a non-done agent consumes one draw of the random stream when the static
  wind of its row is not zero, and none when it is zero. The code draws the noise before
  it looks at the wind of the row: with one agent on a row without wind, a call of
  \<open>step\<close> takes one value from the stream.
\<close>

theorem draw_without_wind:
  "drawn (world [mk_agent 0 (0, 0) (4, 4) 150 False] free_grid) = 0 \<and>
   getitem (col_wind (world [mk_agent 0 (0, 0) (4, 4) 150 False] free_grid)) 0 = Inr 0 \<and>
   map_option (\<lambda>(r, s'). drawn s')
     (step (world [mk_agent 0 (0, 0) (4, 4) 150 False] free_grid) [1]) = Some 1"
  by code_simp

text \<open>
  C7, as the code has it. A call of \<open>step\<close> that returns has taken exactly one value from
  the random stream for each agent that was not done, whatever the wind of its row; and on
  a row whose static wind is zero the transition ignores the noise drawn: the wind offset
  is zero and the move is the plain move of the action.
\<close>

theorem one_draw_per_active_agent:
  "(step s acts = Some (Inr out, s') \<longrightarrow>
      drawn s' = drawn s + length (filter (\<lambda>agent. \<not> is_done agent) (agents s))) \<and>
   (getitem (col_wind s) n = Inr 0 \<longrightarrow>
      trans_function s (n, m) action noise =
        Inr (if action = LegalActions_up then (n - 1, m)
             else if action = LegalActions_down then (n + 1, m)
             else if action = LegalActions_left then (n, m - 1)
             else if action = LegalActions_right then (n, m + 1)
             else (n, m)))"
  by (simp add: step_drawn trans_function_def)

theorem one_draw_per_active_agent_witness:
  "\<exists>out s'. step (world [mk_agent 0 (0, 0) (4, 4) 150 False] free_grid) [1] = Some (Inr out, s') \<and>
     drawn s' = 1 \<and>
     getitem (col_wind (world [mk_agent 0 (0, 0) (4, 4) 150 False] free_grid)) 0 = Inr 0 \<and>
     trans_function (world [mk_agent 0 (0, 0) (4, 4) 150 False] free_grid) (0, 0) 1 7 = Inr (0, 1)"
proof -
  let ?w = "world [mk_agent 0 (0, 0) (4, 4) 150 False] free_grid"
  have "map_option (\<lambda>(r, s'). isl r) (step ?w [1]) = Some False"
    by code_simp
  then obtain r s' where r: "step ?w [1] = Some (r, s')" "\<not> isl r"
    by (cases "step ?w [1]") auto
  then obtain out where "r = Inr out"
    by (cases r) auto
  with r have st: "step ?w [1] = Some (Inr out, s')"
    by simp
  have g: "getitem (col_wind ?w) 0 = Inr 0"
    by (simp add: world_def getitem_def)
  from one_draw_per_active_agent [of ?w "[1]" out s' 0 0 1 7] st g
  show ?thesis
    by (simp add: world_def mk_agent_def LegalActions_up_def LegalActions_down_def
        LegalActions_left_def LegalActions_right_def)
qed

lemma mem_other_positions:
  "p \<in> set (other_positions s i) \<longleftrightarrow>
     (\<exists>j<length (agents s). j \<noteq> i \<and> pos (agents s ! j) = p)"
  by (auto simp: other_positions_def)

lemma reward_agent_illegal:
  "fst (snd (reward_agent s i)) \<longleftrightarrow>
     \<not> in_bounds s (pos (agents s ! i)) \<or>
     item (grid s) (nat (fst (pos (agents s ! i)))) (nat (snd (pos (agents s ! i)))) = OBSTACLE \<or>
     (\<exists>j<length (agents s). j \<noteq> i \<and> pos (agents s ! j) = pos (agents s ! i))"
  by (simp add: reward_agent_def Let_def mem_other_positions)

text \<open>
  C4. The claim: a move is flagged illegal exactly when the new position is out of bounds,
  on an obstacle, or on the position of another agent that is not done; an agent that is
  done does not block. The code compares with the positions of all other agents: an agent
  standing inside the free grid on the cell of the only other agent, which is done, is
  flagged illegal.
\<close>

theorem done_agent_blocks:
  "fst (snd (reward_agent
       (world [mk_agent 0 (0, 1) (4, 4) 140 False, mk_agent 1 (0, 1) (0, 1) 60 True] free_grid) 0)) \<and>
   in_bounds (world [mk_agent 0 (0, 1) (4, 4) 140 False, mk_agent 1 (0, 1) (0, 1) 60 True] free_grid)
     (0, 1) \<and>
   item free_grid 0 1 \<noteq> OBSTACLE \<and>
   map is_done (agents (world [mk_agent 0 (0, 1) (4, 4) 140 False,
                               mk_agent 1 (0, 1) (0, 1) 60 True] free_grid)) = [False, True]"
  by code_simp

text \<open>
  C4, as the code has it. The evaluation of agent \<open>i\<close> flags its move illegal exactly when
  its position is outside the grid, or the cell is an obstacle, or another agent, done or
  not, has the same position.
\<close>

theorem illegal_iff:
  "fst (snd (reward_agent s i)) \<longleftrightarrow>
     \<not> in_bounds s (pos (agents s ! i)) \<or>
     item (grid s) (nat (fst (pos (agents s ! i)))) (nat (snd (pos (agents s ! i)))) = OBSTACLE \<or>
     (\<exists>j<length (agents s). j \<noteq> i \<and> pos (agents s ! j) = pos (agents s ! i))"
  by (rule reward_agent_illegal)

theorem illegal_iff_witness:
  "in_bounds (world [mk_agent 0 (2, 2) (4, 4) 140 False, mk_agent 1 (2, 2) (0, 1) 140 False] free_grid)
     (pos (agents (world [mk_agent 0 (2, 2) (4, 4) 140 False,
                          mk_agent 1 (2, 2) (0, 1) 140 False] free_grid) ! 0)) \<and>
   fst (snd (reward_agent
     (world [mk_agent 0 (2, 2) (4, 4) 140 False, mk_agent 1 (2, 2) (0, 1) 140 False] free_grid) 0)) \<and>
   \<not> fst (snd (reward_agent
     (world [mk_agent 0 (2, 2) (4, 4) 140 False, mk_agent 1 (2, 3) (0, 1) 140 False] free_grid) 0))"
proof -
  let ?a = "world [mk_agent 0 (2, 2) (4, 4) 140 False, mk_agent 1 (2, 2) (0, 1) 140 False] free_grid"
  let ?b = "world [mk_agent 0 (2, 2) (4, 4) 140 False, mk_agent 1 (2, 3) (0, 1) 140 False] free_grid"
  have inb: "in_bounds ?a (pos (agents ?a ! 0))" "in_bounds ?b (pos (agents ?b ! 0))"
    by (simp_all add: world_def mk_agent_def free_grid_def in_bounds_def)
  have free: "item (grid ?b) (nat (fst (pos (agents ?b ! 0)))) (nat (snd (pos (agents ?b ! 0))))
                \<noteq> OBSTACLE"
    by (simp add: world_def mk_agent_def free_grid_def OBSTACLE_def)
  have "1 < length (agents ?a) \<and> (1::nat) \<noteq> 0 \<and> pos (agents ?a ! 1) = pos (agents ?a ! 0)"
    by (simp add: world_def mk_agent_def)
  then have "\<exists>j<length (agents ?a). j \<noteq> 0 \<and> pos (agents ?a ! j) = pos (agents ?a ! 0)"
    by blast
  then have a: "fst (snd (reward_agent ?a 0))"
    using illegal_iff [of ?a 0] by blast
  have "\<not> (\<exists>j<length (agents ?b). j \<noteq> 0 \<and> pos (agents ?b ! j) = pos (agents ?b ! 0))"
    by (auto simp: world_def mk_agent_def less_Suc_eq numeral_2_eq_2)
  then have "\<not> fst (snd (reward_agent ?b 0))"
    using illegal_iff [of ?b 0] inb(2) free by blast
  with a inb(1) show ?thesis by simp
qed

lemma resolve_pass_settled:
  assumes i: "i < length (agents (self st))"
    and len: "length (loc_illegals st) = length (agents (self st))"
    and c: "loc_illegals st ! i \<or> pos (agents (self st) ! i) = old ! i"
  shows "pos (agents (self (resolve_pass old st)) ! i) = old ! i \<and>
         \<not> loc_illegals (resolve_pass old st) ! i"
proof -
  have p: "pos (agents (self (resolve_pass old st)) ! i) = old ! i"
    using c resolve_pass_agents [OF i len, of old] by auto
  then have "skipped old (self (resolve_pass old st)) i"
    by (simp add: skipped_def)
  then show ?thesis
    using p resolve_pass_illegals [OF i len, of old] by simp
qed

text \<open>
  C5. The while loop of \<open>step\<close> ends for every input: a call of \<open>step\<close> always returns or
  raises. For every state of the loop with one flag for each agent: a pass makes the list
  of eligible agents (those flagged, or not done and away from their old position)
  strictly shorter; an agent that is reverted by a pass, or already stands on its old
  position, stands there after the pass and is not flagged; and the loop ends after a
  number \<open>k\<close> of passes that is at most the number of agents.
\<close>

theorem conflict_resolution_terminates:
  assumes "length (loc_illegals st) = length (agents (self st))"
  shows "(\<forall>s acts. \<exists>r s'. step s acts = Some (r, s')) \<and>
         (any (loc_illegals st) \<longrightarrow>
            length (eligible old (resolve_pass old st)) < length (eligible old st)) \<and>
         (\<forall>i<length (agents (self st)).
            loc_illegals st ! i \<or> pos (agents (self st) ! i) = old ! i \<longrightarrow>
            pos (agents (self (resolve_pass old st)) ! i) = old ! i \<and>
            \<not> loc_illegals (resolve_pass old st) ! i) \<and>
         (\<exists>k\<le>length (agents (self st)).
            solve_conflicts old st = Some ((resolve_pass old ^^ k) st) \<and>
            \<not> any (loc_illegals ((resolve_pass old ^^ k) st)) \<and>
            (\<forall>j<k. any (loc_illegals ((resolve_pass old ^^ j) st))))"
proof (intro conjI)
  show "\<forall>s acts. \<exists>r s'. step s acts = Some (r, s')"
    using step_returns by blast
  show "any (loc_illegals st) \<longrightarrow>
          length (eligible old (resolve_pass old st)) < length (eligible old st)"
    using eligible_shrinks [OF assms] by blast
  show "\<forall>i<length (agents (self st)).
          loc_illegals st ! i \<or> pos (agents (self st) ! i) = old ! i \<longrightarrow>
          pos (agents (self (resolve_pass old st)) ! i) = old ! i \<and>
          \<not> loc_illegals (resolve_pass old st) ! i"
    using resolve_pass_settled [OF _ assms] by blast
  obtain k where k: "k \<le> length (eligible old st)"
    "solve_conflicts old st = Some ((resolve_pass old ^^ k) st)"
    "\<not> any (loc_illegals ((resolve_pass old ^^ k) st))"
    "\<forall>j<k. any (loc_illegals ((resolve_pass old ^^ j) st))"
    using solve_conflicts_passes [OF assms, of old] by blast
  have "k \<le> length (agents (self st))"
    using k(1) eligible_le [of old st] by simp
  with k(2-4) show "\<exists>k\<le>length (agents (self st)).
            solve_conflicts old st = Some ((resolve_pass old ^^ k) st) \<and>
            \<not> any (loc_illegals ((resolve_pass old ^^ k) st)) \<and>
            (\<forall>j<k. any (loc_illegals ((resolve_pass old ^^ j) st)))"
    by blast
qed

theorem conflict_resolution_terminates_witness:
  "length (loc_illegals collision) = length (agents (self collision)) \<and>
   any (loc_illegals collision) \<and>
   length (eligible [(0, 0), (0, 2)] (resolve_pass [(0, 0), (0, 2)] collision))
     < length (eligible [(0, 0), (0, 2)] collision) \<and>
   (0::nat) < length (agents (self collision)) \<and> loc_illegals collision ! 0 \<and>
   pos (agents (self (resolve_pass [(0, 0), (0, 2)] collision)) ! 0) = [(0, 0), (0, 2)] ! 0 \<and>
   (\<exists>k\<le>2. solve_conflicts [(0, 0), (0, 2)] collision =
             Some ((resolve_pass [(0, 0), (0, 2)] ^^ k) collision))"
proof -
  have len: "length (loc_illegals collision) = length (agents (self collision))"
    and n: "length (agents (self collision)) = 2"
    and a: "any (loc_illegals collision)"
    and f: "loc_illegals collision ! 0"
    by (simp_all add: collision_def world_def any_def)
  from conflict_resolution_terminates [OF len, of "[(0, 0), (0, 2)]"] len n a f
  show ?thesis by auto
qed

lemma step_active_agent:
  assumes st: "step s acts = Some (Inr (rs, ds), s')"
    and i: "i < length (agents s)" and nd: "\<not> is_done (agents s ! i)"
  shows "agents s' ! i =
           (agents s ! i)
             \<lparr>pos := pos (agents s' ! i),
              battery := (if getitem2 (grid s) (pos (agents s' ! i)) = Inr GCS then BATTERY
                          else battery (agents s ! i) - 10),
              is_done := ds ! i\<rparr> \<and>
         (battery (agents s ! i) - 10 \<le> 0 \<longrightarrow> ds ! i \<and> rs ! i = rewards s Battery_depleted) \<and>
         length (agents s') = length (agents s)"
proof (rule step_outcomes [of acts s])
  assume "step s acts = Some (Inl AssertionError, s\<lparr>step_count := step_count s + 1\<rparr>)"
  then show ?thesis using st by simp
next
  fix e s2
  assume "step s acts = Some (Inl e, s2)"
  then show ?thesis using st by simp
next
  fix mv s2 st' e s4
  let ?s1 = "s\<lparr>step_count := step_count s + 1\<rparr>"
  let ?s3 = "apply_moves mv s2"
  assume cm: "compute_moves acts [0..<length (agents s)] (map pos (agents s)) ?s1 = (Inr mv, s2)"
    and mo: "moved_only (map pos (agents s)) ?s3 (self st')"
    and dp: "depleted st'"
    and fin: "finish (loc_done st') [0..<length (agents s)] (self st') = (e, s4)"
    and eq: "step s acts =
             Some (case e of Some x \<Rightarrow> Inl x
                   | None \<Rightarrow> Inr (loc_rewards st', map is_done (agents s4)), s4)"
  have e: "e = None" and rs: "rs = loc_rewards st'" and ds: "ds = map is_done (agents s4)"
    and s': "s' = s4"
    using eq st by (simp_all split: option.splits)
  have s2: "agents s2 = agents s" "grid s2 = grid s" "rewards s2 = rewards s"
    using compute_moves_frame(1,2,7) [of acts "[0..<length (agents s)]" "map pos (agents s)" ?s1]
      cm by simp_all
  have i3: "i < length (agents ?s3)" using i s2 by simp
  have a3: "agents ?s3 ! i =
              (agents s ! i)\<lparr>pos := mv ! i, battery := battery (agents s ! i) - 10\<rparr>"
    using i nd s2 by (simp add: apply_moves_nth)
  have n: "length (agents (self st')) = length (agents s)"
    and g: "grid (self st') = grid s" and rw: "rewards (self st') = rewards s"
    and a: "agents (self st') ! i = (agents ?s3 ! i)\<lparr>pos := pos (agents (self st') ! i)\<rparr>"
    using mo i3 s2 by (simp_all add: moved_only_def)
  have a': "agents (self st') ! i =
              (agents s ! i)\<lparr>pos := pos (agents (self st') ! i),
                              battery := battery (agents s ! i) - 10\<rparr>"
    by (subst a) (simp add: a3)
  have nd': "\<not> is_done (agents (self st') ! i)"
    and b': "battery (agents (self st') ! i) = battery (agents s ! i) - 10"
    by (subst a', simp add: nd)+
  have f: "agents s4 ! i =
             (agents (self st') ! i)
               \<lparr>battery := (if getitem2 (grid (self st')) (pos (agents (self st') ! i)) = Inr GCS
                            then BATTERY else battery (agents (self st') ! i)),
                is_done := loc_done st' ! i\<rparr>"
    using finish_nth [of i "self st'" "[0..<length (agents s)]" "loc_done st'"] fin e i n nd'
    by simp
  have len4: "length (agents s4) = length (agents s)"
    using finish_frame(1) [of "loc_done st'" "[0..<length (agents s)]" "self st'"] fin n by simp
  have p4: "pos (agents s4 ! i) = pos (agents (self st') ! i)"
    by (subst f) simp
  have dsi: "ds ! i = loc_done st' ! i"
    using ds i len4 f by simp
  have "agents s4 ! i =
           (agents s ! i)
             \<lparr>pos := pos (agents s4 ! i),
              battery := (if getitem2 (grid s) (pos (agents s4 ! i)) = Inr GCS then BATTERY
                          else battery (agents s ! i) - 10),
              is_done := ds ! i\<rparr>"
    unfolding p4 dsi by (subst f, subst a') (simp add: g b')
  moreover have "ds ! i \<and> rs ! i = rewards s Battery_depleted"
    if "battery (agents s ! i) - 10 \<le> 0"
    using dp that nd' b' i n rs dsi rw by (simp add: depleted_def)
  ultimately show ?thesis using s' len4 by simp
qed

lemma step_length:
  assumes "step s acts = Some (r, s')"
  shows "length (agents s') = length (agents s)"
proof (rule step_outcomes [of acts s])
  assume "step s acts = Some (Inl AssertionError, s\<lparr>step_count := step_count s + 1\<rparr>)"
  then show ?thesis using assms by auto
next
  fix e s2
  assume cm: "compute_moves acts [0..<length (agents s)] (map pos (agents s))
               (s\<lparr>step_count := step_count s + 1\<rparr>) = (Inl e, s2)"
    and st: "step s acts = Some (Inl e, s2)"
  have "agents s2 = agents s"
    using compute_moves_frame(1) [of acts "[0..<length (agents s)]" "map pos (agents s)"
        "s\<lparr>step_count := step_count s + 1\<rparr>"] cm by simp
  then show ?thesis using st assms by auto
next
  fix mv s2 st' e s4
  assume cm: "compute_moves acts [0..<length (agents s)] (map pos (agents s))
               (s\<lparr>step_count := step_count s + 1\<rparr>) = (Inr mv, s2)"
    and mo: "moved_only (map pos (agents s)) (apply_moves mv s2) (self st')"
    and fin: "finish (loc_done st') [0..<length (agents s)] (self st') = (e, s4)"
    and st: "step s acts =
             Some (case e of Some x \<Rightarrow> Inl x
                   | None \<Rightarrow> Inr (loc_rewards st', map is_done (agents s4)), s4)"
  have "agents s2 = agents s"
    using compute_moves_frame(1) [of acts "[0..<length (agents s)]" "map pos (agents s)"
        "s\<lparr>step_count := step_count s + 1\<rparr>"] cm by simp
  then have "length (agents (self st')) = length (agents s)"
    using mo by (simp add: moved_only_def)
  then have "length (agents s4) = length (agents s)"
    using finish_frame(1) [of "loc_done st'" "[0..<length (agents s)]" "self st'"] fin by simp
  moreover have "s' = s4" using st assms by simp
  ultimately show ?thesis by simp
qed

lemma battery_ok_step:
  assumes ok: "\<forall>a\<in>set (agents s). battery_ok a"
    and st: "step s acts = Some (Inr out, s')"
  shows "\<forall>a\<in>set (agents s'). battery_ok a"
proof
  fix a assume "a \<in> set (agents s')"
  then obtain i where i': "i < length (agents s')" and a: "a = agents s' ! i"
    by (auto simp: in_set_conv_nth)
  have i: "i < length (agents s)" using i' step_length [OF st] by simp
  have oki: "battery_ok (agents s ! i)" using ok i by simp
  obtain rs ds where out: "out = (rs, ds)" by (cases out)
  show "battery_ok a"
  proof (cases "is_done (agents s ! i)")
    case True
    then show ?thesis using step_done_agent [OF st i] oki a by simp
  next
    case False
    let ?b = "battery (agents s ! i)"
    have b: "0 < ?b" "?b \<le> BATTERY" "10 dvd ?b"
      using oki False by (simp_all add: battery_ok_def)
    then have b10: "10 \<le> ?b" by presburger
    have d: "10 dvd (?b - 10)" using b(3) by presburger
    from step_active_agent [OF st [unfolded out] i False]
    have eq: "agents s' ! i =
           (agents s ! i)
             \<lparr>pos := pos (agents s' ! i),
              battery := (if getitem2 (grid s) (pos (agents s' ! i)) = Inr GCS then BATTERY
                          else ?b - 10),
              is_done := ds ! i\<rparr>"
      and dep: "?b - 10 \<le> 0 \<longrightarrow> ds ! i"
      by simp_all
    have "battery_ok (agents s' ! i)"
      by (subst eq) (use b b10 d dep in \<open>auto simp: battery_ok_def BATTERY_def\<close>)
    then show ?thesis using a by simp
  qed
qed

lemma battery_ok_reset: "\<forall>a\<in>set (agents (reset_agents s)). battery_ok a"
  by (auto simp: reset_agents_def battery_ok_def BATTERY_def)

lemma reachable_battery_ok: "reachable s \<Longrightarrow> \<forall>a\<in>set (agents s). battery_ok a"
proof (induction rule: reachable.induct)
  case (after_reset s)
  show ?case by (rule battery_ok_reset)
next
  case (after_step s acts out s')
  then show ?case using battery_ok_step by blast
qed

text \<open>
  C2. In every state that is reached from a reset by calls of \<open>step\<close> that return, the
  battery of every agent is between 0 and 150. An evaluation that finds the battery of
  its agent at or below zero gives the reward \<open>battery_depleted\<close> and \<open>done\<close>, whatever the
  position of the agent. And in a call of \<open>step\<close> that returns, an agent that is not done
  and whose battery is at most 10, so at most 0 after the move has been paid, gets the
  reward \<open>battery_depleted\<close> and is done after the call.
\<close>

theorem battery_range_and_exhaustion:
  "(reachable s \<longrightarrow> (\<forall>a\<in>set (agents s). 0 \<le> battery a \<and> battery a \<le> 150)) \<and>
   (battery (agents t ! i) \<le> 0 \<longrightarrow>
      fst (reward_agent t i) = rewards t Battery_depleted \<and> snd (snd (reward_agent t i))) \<and>
   (step t acts = Some (Inr (rs, ds), t') \<and> i < length (agents t) \<and>
    \<not> is_done (agents t ! i) \<and> battery (agents t ! i) \<le> 10 \<longrightarrow>
      rs ! i = rewards t Battery_depleted \<and> ds ! i \<and> is_done (agents t' ! i))"
proof (intro conjI impI)
  assume "reachable s"
  then show "\<forall>a\<in>set (agents s). 0 \<le> battery a \<and> battery a \<le> 150"
    using reachable_battery_ok by (auto simp: battery_ok_def BATTERY_def)
next
  assume "battery (agents t ! i) \<le> 0"
  then show "fst (reward_agent t i) = rewards t Battery_depleted"
    and "snd (snd (reward_agent t i))"
    using reward_agent_depleted by blast+
next
  assume h: "step t acts = Some (Inr (rs, ds), t') \<and> i < length (agents t) \<and>
    \<not> is_done (agents t ! i) \<and> battery (agents t ! i) \<le> 10"
  then have st: "step t acts = Some (Inr (rs, ds), t')" and i: "i < length (agents t)"
    and nd: "\<not> is_done (agents t ! i)" and b: "battery (agents t ! i) - 10 \<le> 0"
    by simp_all
  have eq: "agents t' ! i =
           (agents t ! i)
             \<lparr>pos := pos (agents t' ! i),
              battery := (if getitem2 (grid t) (pos (agents t' ! i)) = Inr GCS then BATTERY
                          else battery (agents t ! i) - 10),
              is_done := ds ! i\<rparr>"
    using step_active_agent [OF st i nd] by (rule conjunct1)
  have d: "ds ! i" and r: "rs ! i = rewards t Battery_depleted"
    using step_active_agent [OF st i nd] b by blast+
  show "rs ! i = rewards t Battery_depleted" by (rule r)
  show "ds ! i" by (rule d)
  show "is_done (agents t' ! i)" by (subst eq) (simp add: d)
qed

lemma step_returns_Inr:
  assumes "map_option (\<lambda>(r, s'). isl r) (step s acts) = Some False"
  obtains rs ds s' where "step s acts = Some (Inr (rs, ds), s')"
proof -
  from assms obtain r s' where r: "step s acts = Some (r, s')" "\<not> isl r"
    by (cases "step s acts") auto
  then obtain out where "r = Inr out"
    by (cases r) auto
  with r that show ?thesis
    by (cases out) simp
qed

theorem battery_range_and_exhaustion_witness:
  "reachable (reset_agents (world [mk_agent 0 (0, 0) (4, 4) 30 True] free_grid)) \<and>
   0 \<le> battery (agents (reset_agents (world [mk_agent 0 (0, 0) (4, 4) 30 True] free_grid)) ! 0) \<and>
   battery (agents (reset_agents (world [mk_agent 0 (0, 0) (4, 4) 30 True] free_grid)) ! 0) \<le> 150 \<and>
   battery (agents (world [mk_agent 0 (4, 4) (4, 4) 0 False] free_grid) ! 0) \<le> 0 \<and>
   fst (reward_agent (world [mk_agent 0 (4, 4) (4, 4) 0 False] free_grid) 0) = - 10 \<and>
   snd (snd (reward_agent (world [mk_agent 0 (4, 4) (4, 4) 0 False] free_grid) 0)) \<and>
   (\<exists>rs ds t'.
      step (world [mk_agent 0 (0, 0) (0, 1) 10 False] free_grid) [1] = Some (Inr (rs, ds), t') \<and>
      0 < length (agents (world [mk_agent 0 (0, 0) (0, 1) 10 False] free_grid)) \<and>
      \<not> is_done (agents (world [mk_agent 0 (0, 0) (0, 1) 10 False] free_grid) ! 0) \<and>
      battery (agents (world [mk_agent 0 (0, 0) (0, 1) 10 False] free_grid) ! 0) \<le> 10 \<and>
      rs ! 0 = - 10 \<and> ds ! 0 \<and> is_done (agents t' ! 0))"
proof -
  let ?w0 = "reset_agents (world [mk_agent 0 (0, 0) (4, 4) 30 True] free_grid)"
  let ?w1 = "world [mk_agent 0 (4, 4) (4, 4) 0 False] free_grid"
  let ?w2 = "world [mk_agent 0 (0, 0) (0, 1) 10 False] free_grid"
  have r: "reachable ?w0" by (rule after_reset)
  have m: "agents ?w0 ! 0 \<in> set (agents ?w0)"
    by (simp add: reset_agents_def world_def)
  have b1: "battery (agents ?w1 ! 0) \<le> 0"
    by (simp add: world_def mk_agent_def)
  have "map_option (\<lambda>(r, s'). isl r) (step ?w2 [1]) = Some False"
    by code_simp
  then obtain rs ds t' where st: "step ?w2 [1] = Some (Inr (rs, ds), t')"
    by (rule step_returns_Inr)
  have h: "0 < length (agents ?w2)" "\<not> is_done (agents ?w2 ! 0)" "battery (agents ?w2 ! 0) \<le> 10"
    by (simp_all add: world_def mk_agent_def)
  have rw: "rewards ?w1 Battery_depleted = - 10" "rewards ?w2 Battery_depleted = - 10"
    by (simp_all add: world_def)
  from battery_range_and_exhaustion [where s = ?w0 and t = ?w1 and i = 0]
    battery_range_and_exhaustion [where t = ?w2 and i = 0 and acts = "[1]" and rs = rs
      and ds = ds and t' = t'] r m b1 st h rw
  show ?thesis by auto
qed

text \<open>
  C10. An agent that is not done and whose battery is at most 10, so that the move brings
  it to 0, and that ends a returning call of \<open>step\<close> on a cell of the charging station, is
  recharged to 150 and is done all the same, with the reward \<open>battery_depleted\<close>.
\<close>

theorem recharge_does_not_cancel_depletion:
  assumes "step s acts = Some (Inr (rs, ds), s')" and "i < length (agents s)"
    and "\<not> is_done (agents s ! i)" and "battery (agents s ! i) \<le> 10"
    and "getitem2 (grid s) (pos (agents s' ! i)) = Inr GCS"
  shows "battery (agents s' ! i) = 150 \<and> is_done (agents s' ! i) \<and> ds ! i \<and>
         rs ! i = rewards s Battery_depleted"
proof -
  have b: "battery (agents s ! i) - 10 \<le> 0" using assms(4) by simp
  have eq: "agents s' ! i =
           (agents s ! i)
             \<lparr>pos := pos (agents s' ! i),
              battery := (if getitem2 (grid s) (pos (agents s' ! i)) = Inr GCS then BATTERY
                          else battery (agents s ! i) - 10),
              is_done := ds ! i\<rparr>"
    using step_active_agent [OF assms(1-3)] by (rule conjunct1)
  have d: "ds ! i" and r: "rs ! i = rewards s Battery_depleted"
    using step_active_agent [OF assms(1-3)] b by blast+
  have "battery (agents s' ! i) = 150" "is_done (agents s' ! i)"
    by (subst eq, simp add: assms(5) d BATTERY_def)+
  with d r show ?thesis by simp
qed

theorem recharge_does_not_cancel_depletion_witness:
  "\<exists>rs ds s'.
     step (world [mk_agent 0 (0, 0) (4, 4) 10 False] station_grid) [1] = Some (Inr (rs, ds), s') \<and>
     0 < length (agents (world [mk_agent 0 (0, 0) (4, 4) 10 False] station_grid)) \<and>
     \<not> is_done (agents (world [mk_agent 0 (0, 0) (4, 4) 10 False] station_grid) ! 0) \<and>
     battery (agents (world [mk_agent 0 (0, 0) (4, 4) 10 False] station_grid) ! 0) \<le> 10 \<and>
     getitem2 (grid (world [mk_agent 0 (0, 0) (4, 4) 10 False] station_grid))
       (pos (agents s' ! 0)) = Inr GCS \<and>
     battery (agents s' ! 0) = 150 \<and> is_done (agents s' ! 0) \<and> ds ! 0 \<and> rs ! 0 = - 10"
proof -
  let ?w = "world [mk_agent 0 (0, 0) (4, 4) 10 False] station_grid"
  have e: "map_option (\<lambda>(r, s'). (isl r, pos (agents s' ! 0))) (step ?w [1]) = Some (False, (0, 1))"
    by code_simp
  then have "map_option (\<lambda>(r, s'). isl r) (step ?w [1]) = Some False"
    by (cases "step ?w [1]") auto
  then obtain rs ds s' where st: "step ?w [1] = Some (Inr (rs, ds), s')"
    by (rule step_returns_Inr)
  have p: "pos (agents s' ! 0) = (0, 1)" using e st by simp
  have g: "getitem2 (grid ?w) (pos (agents s' ! 0)) = Inr GCS"
    unfolding p by (simp add: world_def station_grid_def getitem2_def)
  have h: "0 < length (agents ?w)" "\<not> is_done (agents ?w ! 0)" "battery (agents ?w ! 0) \<le> 10"
    by (simp_all add: world_def mk_agent_def)
  have rw: "rewards ?w Battery_depleted = - 10"
    by (simp add: world_def)
  from recharge_does_not_cancel_depletion [OF st h g] st h g rw
  show ?thesis by auto
qed

end
